theory Spec2Isabelle
  imports Main "HOL-Library.Word" "HOL-Library.Char_ord" "HOL-Library.List_Lexorder"
begin

unbundle bit_operations_syntax

chapter \<open>The model\<close>

section \<open>Machine types\<close>

type_synonym u8 = "8 word"
type_synonym u16 = "16 word"
type_synonym u32 = "32 word"
type_synonym u64 = "64 word"
type_synonym size_t = "64 word"

section \<open>SPSC ring (spsc\_queue.hpp)\<close>

text \<open>
  \<^verbatim>\<open>SpscQueue<T>\<close> keeps a consumer index \<^verbatim>\<open>head_\<close>, a producer index \<^verbatim>\<open>tail_\<close>, the
  storage \<^verbatim>\<open>buf_\<close> and the two constants \<^verbatim>\<open>capacity_\<close> and \<^verbatim>\<open>mask_\<close>. A name cannot end
  in an underscore here, so the member \<^verbatim>\<open>head_\<close> is the field \<open>m_head\<close>, and so on. The
  indices are \<^verbatim>\<open>std::size_t\<close>, modelled as 64-bit words. The storage is a list of
  \<^verbatim>\<open>capacity_\<close> cells.
  Each operation is modelled as one atomic step on this record: an interleaving of one
  producer and one consumer is a sequence of such steps.
\<close>

datatype SpscError = CapacityZero | CapacityNotPowerOfTwo | AllocationFailed | ElementNotNothrowMovable

record 'a SpscQueue =
  m_head :: size_t
  m_tail :: size_t
  m_buf :: "'a list"
  m_capacity :: size_t
  m_mask :: size_t

text \<open>
  The factory. \<open>traits_ok\<close> is \<^verbatim>\<open>SpscTraits<T>::ok\<close>. \<open>storage\<close> is what the aligned
  \<^verbatim>\<open>operator new[]\<close> handed back: \<open>None\<close> for a null pointer, \<open>Some f\<close> for a block whose
  (not value-initialised) cell \<open>i\<close> holds \<open>f i\<close>.
\<close>

definition with_capacity :: "bool \<Rightarrow> (nat \<Rightarrow> 'a) option \<Rightarrow> size_t \<Rightarrow> SpscError + 'a SpscQueue" where
  "with_capacity traits_ok storage capacity_pow2 =
     (if capacity_pow2 = 0 then Inl CapacityZero
      else if capacity_pow2 AND (capacity_pow2 - 1) \<noteq> 0 then Inl CapacityNotPowerOfTwo
      else if \<not> traits_ok then Inl ElementNotNothrowMovable
      else case storage of
             None \<Rightarrow> Inl AllocationFailed
           | Some f \<Rightarrow> Inr \<lparr>m_head = 0, m_tail = 0,
                            m_buf = map f [0..<unat capacity_pow2],
                            m_capacity = capacity_pow2,
                            m_mask = capacity_pow2 - 1\<rparr>)"

text \<open>\<^verbatim>\<open>push\<close>: the flag is the C++ return value; on \<^verbatim>\<open>false\<close> the queue is returned as it was.\<close>

definition push :: "'a \<Rightarrow> 'a SpscQueue \<Rightarrow> bool \<times> 'a SpscQueue" where
  "push v q =
     (let t = m_tail q;
          n = (t + 1) AND m_mask q
      in if n = m_head q then (False, q)
         else (True, q\<lparr>m_buf := (m_buf q)[unat t := v], m_tail := n\<rparr>))"

text \<open>
  \<^verbatim>\<open>pop(T& out)\<close>: \<open>None\<close> is the return value \<^verbatim>\<open>false\<close> (\<^verbatim>\<open>out\<close> untouched), \<open>Some v\<close> is
  \<^verbatim>\<open>true\<close> with \<^verbatim>\<open>out = v\<close>. For the trivially copyable instantiations (\<^verbatim>\<open>SpscQueue<int>\<close>,
  \<^verbatim>\<open>SpscQueue<PacketHandle>\<close>) the move out of \<^verbatim>\<open>buf_[h]\<close> leaves the cell as it was.
\<close>

definition pop :: "'a SpscQueue \<Rightarrow> 'a option \<times> 'a SpscQueue" where
  "pop q =
     (let h = m_head q
      in if h = m_tail q then (None, q)
         else (Some (m_buf q ! unat h), q\<lparr>m_head := (h + 1) AND m_mask q\<rparr>))"

definition empty :: "'a SpscQueue \<Rightarrow> bool" where
  "empty q = (m_head q = m_tail q)"

definition full :: "'a SpscQueue \<Rightarrow> bool" where
  "full q = (let t = m_tail q in ((t + 1) AND m_mask q) = m_head q)"

definition capacity :: "'a SpscQueue \<Rightarrow> size_t" where
  "capacity q = m_capacity q"

definition approx_size :: "'a SpscQueue \<Rightarrow> size_t" where
  "approx_size q = (let t = m_tail q; h = m_head q in (t + m_capacity q - h) AND m_mask q)"

subsection \<open>Drivers: sequences of operations\<close>

text \<open>
  A schedule of one producer and one consumer is a list of operations; \<open>run\<close> performs them
  in order and records what each call returned.
\<close>

datatype 'a op = Push 'a | Pop

datatype 'a ev = Pushed 'a bool | Popped "'a option"

fun run :: "'a op list \<Rightarrow> 'a SpscQueue \<Rightarrow> 'a ev list \<times> 'a SpscQueue" where
  "run [] q = ([], q)"
| "run (Push v # ops) q =
     (let (ok, q1) = push v q; (evs, q2) = run ops q1 in (Pushed v ok # evs, q2))"
| "run (Pop # ops) q =
     (let (r, q1) = pop q; (evs, q2) = run ops q1 in (Popped r # evs, q2))"

text \<open>The values whose push returned true, and the values handed out by pop, in call order.\<close>

fun pushed :: "'a ev list \<Rightarrow> 'a list" where
  "pushed [] = []"
| "pushed (Pushed v True # evs) = v # pushed evs"
| "pushed (_ # evs) = pushed evs"

fun popped :: "'a ev list \<Rightarrow> 'a list" where
  "popped [] = []"
| "popped (Popped (Some v) # evs) = v # popped evs"
| "popped (_ # evs) = popped evs"

text \<open>
  The test's drain loop \<^verbatim>\<open>while (q.pop(v)) out.push_back(v);\<close> with a bound on the number
  of iterations: \<open>None\<close> when the bound is used up before a pop reports empty.
\<close>

fun drain :: "nat \<Rightarrow> 'a SpscQueue \<Rightarrow> ('a list \<times> 'a SpscQueue) option" where
  "drain 0 q = None"
| "drain (Suc fuel) q =
     (case pop q of
        (None, q1) \<Rightarrow> Some ([], q1)
      | (Some v, q1) \<Rightarrow> (case drain fuel q1 of
                           None \<Rightarrow> None
                         | Some (out, q2) \<Rightarrow> Some (v # out, q2)))"

subsection \<open>Representation of a queue state\<close>

text \<open>
  \<open>ring_rep k q xs\<close>: the queue \<open>q\<close> has capacity \<open>2 ^ k\<close>, its indices are in range and
  the cells from \<open>head\<close> up to \<open>tail\<close> (wrapping) hold the list \<open>xs\<close>, oldest first.
\<close>

definition ring_rep :: "nat \<Rightarrow> 'a SpscQueue \<Rightarrow> 'a list \<Rightarrow> bool" where
  "ring_rep k q xs \<longleftrightarrow>
     k < 64 \<and> m_capacity q = 2 ^ k \<and> m_mask q = 2 ^ k - 1 \<and> length (m_buf q) = 2 ^ k
     \<and> unat (m_head q) < 2 ^ k \<and> length xs < 2 ^ k
     \<and> unat (m_tail q) = (unat (m_head q) + length xs) mod 2 ^ k
     \<and> (\<forall>i<length xs. m_buf q ! ((unat (m_head q) + i) mod 2 ^ k) = xs ! i)"

subsection \<open>The ring-order scenario of the unit test\<close>

text \<open>
  \<^verbatim>\<open>SpscQueue.SingleThread_Basics\<close>: capacity 8, push 0..6, pop three, push 100..102, drain.
\<close>

definition ring_order_ops :: "int op list" where
  "ring_order_ops = map Push [0, 1, 2, 3, 4, 5, 6] @ [Pop, Pop, Pop] @ map Push [100, 101, 102]"

definition ring8 :: "int SpscQueue" where
  "ring8 = \<lparr>m_head = 0, m_tail = 0, m_buf = [0, 0, 0, 0, 0, 0, 0, 0], m_capacity = 8, m_mask = 7\<rparr>"

section \<open>Path metrics and the metrics seqlock (path\_selection.hpp, path\_selection.cpp)\<close>

type_synonym PathId = u32

record PathMetrics =
  rtt_us :: u32
  one_way_delay_us :: u32
  loss_ppm :: u32
  avail_kbps :: u32
  qos_class :: u8
  healthy :: bool

text \<open>The default member initialisers of \<^verbatim>\<open>PathMetrics\<close> (\<^verbatim>\<open>PathMetrics m{}\<close>).\<close>

definition PathMetrics_init :: PathMetrics where
  "PathMetrics_init =
     \<lparr>rtt_us = 0xFFFFFFFF, one_way_delay_us = 0xFFFFFFFF, loss_ppm = 0, avail_kbps = 0,
      qos_class = 0, healthy = False\<rparr>"

record MetricsSlot =
  seq :: u32
  metrics :: PathMetrics

definition MetricsSlot_init :: MetricsSlot where
  "MetricsSlot_init = \<lparr>seq = 0, metrics = PathMetrics_init\<rparr>"

text \<open>
  \<^verbatim>\<open>cp::update_metrics\<close> makes three stores. \<open>update_metrics_steps\<close> lists the slot after
  each of them, which is what a reader running beside the writer can find;
  \<open>update_metrics\<close> is the slot when the call returns.
\<close>

definition update_metrics_steps :: "MetricsSlot \<Rightarrow> PathMetrics \<Rightarrow> MetricsSlot list" where
  "update_metrics_steps s m =
     (let start = seq s;
          s1 = s\<lparr>seq := start OR 1\<rparr>;
          s2 = s1\<lparr>metrics := m\<rparr>;
          s3 = s2\<lparr>seq := (start OR 1) + 1\<rparr>
      in [s1, s2, s3])"

definition update_metrics :: "MetricsSlot \<Rightarrow> PathMetrics \<Rightarrow> MetricsSlot" where
  "update_metrics s m = last (update_metrics_steps s m)"

text \<open>
  A reader shares the slot with the writer, so successive reads of the same slot may find
  different contents. The reader's side of the memory is a function of time: \<open>s \<tau>\<close> is the
  slot as the reader's access number \<open>\<tau>\<close> finds it. Each load of \<^verbatim>\<open>seq\<close> and the copy of
  the payload is one access. Nothing is assumed about \<open>s\<close>, so the payload found may be any
  value, a torn one included.

  \<open>load_metrics_loop s t i\<close> is the \<^verbatim>\<open>for\<close> loop of \<^verbatim>\<open>dp::load_metrics\<close> from iteration \<open>i\<close>
  on, starting at access \<open>t\<close>. It returns the result (\<open>None\<close> for \<^verbatim>\<open>false\<close>, \<open>Some snap\<close> for
  \<^verbatim>\<open>true\<close> with \<^verbatim>\<open>out = snap\<close>), the number of the next access, and a log with one entry per
  iteration run: the value \<^verbatim>\<open>s1\<close> and, when the iteration went on to read them, the payload
  and \<^verbatim>\<open>s2\<close>.
\<close>

type_synonym iter_log = "(u32 \<times> (PathMetrics \<times> u32) option) list"

function load_metrics_loop ::
  "(nat \<Rightarrow> MetricsSlot) \<Rightarrow> nat \<Rightarrow> nat \<Rightarrow> PathMetrics option \<times> nat \<times> iter_log" where
  "load_metrics_loop s t i =
     (if i < 4 then
        (let s1 = seq (s t) in
         if s1 AND 1 \<noteq> 0 then
           (let (r, t', lg) = load_metrics_loop s (t + 1) (i + 1) in (r, t', (s1, None) # lg))
         else
           (let snap = metrics (s (t + 1));
                s2 = seq (s (t + 2))
            in if s1 = s2 \<and> s2 mod 2 = 0 then (Some snap, t + 3, [(s1, Some (snap, s2))])
               else (let (r, t', lg) = load_metrics_loop s (t + 3) (i + 1)
                     in (r, t', (s1, Some (snap, s2)) # lg))))
      else (None, t, []))"
  by pat_completeness auto
termination
  by (relation "measure (\<lambda>(s, t, i). 4 - i)") auto

definition load_metrics :: "(nat \<Rightarrow> MetricsSlot) \<Rightarrow> nat \<Rightarrow> PathMetrics option \<times> nat" where
  "load_metrics s t = (let (r, t', lg) = load_metrics_loop s t 0 in (r, t'))"

text \<open>An iteration is rejected when \<^verbatim>\<open>s1\<close> is odd, or when the recheck does not accept.\<close>

fun rejected :: "u32 \<times> (PathMetrics \<times> u32) option \<Rightarrow> bool" where
  "rejected (s1, None) = odd s1"
| "rejected (s1, Some (snap, s2)) = (\<not> (s1 = s2 \<and> even s2))"

text \<open>
  What the loop reads, stated apart from the loop. An iteration that starts at access
  \<open>\<tau>\<close> reads \<^verbatim>\<open>seq\<close> at \<open>\<tau>\<close> and, when that value is even, the payload at \<open>\<tau> + 1\<close> and
  \<^verbatim>\<open>seq\<close> again at \<open>\<tau> + 2\<close>: \<open>slot_read s \<tau>\<close> is what it finds and \<open>next_access s \<tau>\<close>
  the access at which the next iteration starts. \<open>slot_reads s \<tau> n\<close> lists what \<open>n\<close>
  successive iterations find, the first starting at \<open>\<tau>\<close>, and \<open>access_after s \<tau> n\<close> is
  the access that follows them.
\<close>

definition slot_read :: "(nat \<Rightarrow> MetricsSlot) \<Rightarrow> nat \<Rightarrow> u32 \<times> (PathMetrics \<times> u32) option" where
  "slot_read s \<tau> =
     (if odd (seq (s \<tau>)) then (seq (s \<tau>), None)
      else (seq (s \<tau>), Some (metrics (s (\<tau> + 1)), seq (s (\<tau> + 2)))))"

definition next_access :: "(nat \<Rightarrow> MetricsSlot) \<Rightarrow> nat \<Rightarrow> nat" where
  "next_access s \<tau> = (if odd (seq (s \<tau>)) then \<tau> + 1 else \<tau> + 3)"

fun slot_reads :: "(nat \<Rightarrow> MetricsSlot) \<Rightarrow> nat \<Rightarrow> nat \<Rightarrow> iter_log" where
  "slot_reads s \<tau> 0 = []"
| "slot_reads s \<tau> (Suc n) = slot_read s \<tau> # slot_reads s (next_access s \<tau>) n"

fun access_after :: "(nat \<Rightarrow> MetricsSlot) \<Rightarrow> nat \<Rightarrow> nat \<Rightarrow> nat" where
  "access_after s \<tau> 0 = \<tau>"
| "access_after s \<tau> (Suc n) = access_after s (next_access s \<tau>) n"

definition qos_match :: "u8 \<Rightarrow> u8 \<Rightarrow> bool" where
  "qos_match path_class dscp = (path_class \<noteq> 0)"

section \<open>Path-selection policies (path\_selection.cpp)\<close>

text \<open>
  A \<^verbatim>\<open>CandidateRef\<close> holds a path id and a pointer to a metrics slot; the pointer is the
  address of the slot. The memory the data plane reads is \<open>mem \<tau> a\<close>: the slot at address
  \<open>a\<close> as access number \<open>\<tau>\<close> finds it.
\<close>

record CandidateRef =
  cand_id :: PathId
  cand_slot :: nat

record PacketContext =
  flow_hash :: u32
  dscp :: u8

type_synonym slot_mem = "nat \<Rightarrow> nat \<Rightarrow> MetricsSlot"

definition slot_view :: "slot_mem \<Rightarrow> CandidateRef \<Rightarrow> nat \<Rightarrow> MetricsSlot" where
  "slot_view mem c = (\<lambda>\<tau>. mem \<tau> (cand_slot c))"

text \<open>
  The scan loop of \<^verbatim>\<open>RoundRobinPolicy::choose\<close> and of \<^verbatim>\<open>FlowHashPolicy::choose\<close> (the two
  loops have the same text): from iteration \<open>i\<close>, the id of the first candidate
  \<^verbatim>\<open>(start + i) % n\<close> whose metrics load and are healthy, or \<open>None\<close> when the loop ends.
  \<^verbatim>\<open>n\<close>, \<^verbatim>\<open>start\<close>, \<^verbatim>\<open>i\<close> and \<^verbatim>\<open>k\<close> are \<^verbatim>\<open>std::uint32_t\<close>.
\<close>

function scan_healthy ::
  "slot_mem \<Rightarrow> CandidateRef list \<Rightarrow> u32 \<Rightarrow> u32 \<Rightarrow> nat \<Rightarrow> u32 \<Rightarrow> PathId option" where
  "scan_healthy mem cands n start t i =
     (if i < n then
        (let k = (start + i) mod n;
             (r, t') = load_metrics (slot_view mem (cands ! unat k)) t
         in case r of
              Some m \<Rightarrow> if healthy m then Some (cand_id (cands ! unat k))
                        else scan_healthy mem cands n start t' (i + 1)
            | None \<Rightarrow> scan_healthy mem cands n start t' (i + 1))
      else None)"
  by pat_completeness auto
termination
proof -
  have step: "unat n - unat (i + 1) < unat n - unat i" if "i < n" for i n :: u32
  proof -
    from that have lt: "unat i < unat n" by (simp add: word_less_nat_alt)
    have "unat n < 2 ^ LENGTH(32)" by (rule unsigned_less)
    with lt have "(unat i + unat (1::u32)) mod 2 ^ LENGTH(32) = unat i + 1"
      by (simp only: unsigned_1) (rule mod_less, linarith)
    then have "unat (i + 1) = unat i + 1"
      by (simp only: unat_word_ariths(1))
    with lt show ?thesis by linarith
  qed
  show ?thesis
    by (relation "measure (\<lambda>(mem, cands, n, start, t, i). unat n - unat i)")
       (auto intro: step)
qed

text \<open>\<^verbatim>\<open>RoundRobinPolicy\<close>: the state is the counter \<^verbatim>\<open>idx_\<close>; \<^verbatim>\<open>fetch_add\<close> returns the old value.\<close>

definition RoundRobinPolicy_choose ::
  "slot_mem \<Rightarrow> nat \<Rightarrow> u32 \<Rightarrow> CandidateRef list \<Rightarrow> PacketContext \<Rightarrow> PathId \<times> u32" where
  "RoundRobinPolicy_choose mem t idx cands pkt =
     (let n = (word_of_nat (length cands) :: u32) in
      if n = 0 then (0, idx)
      else let start = idx mod n;
               idx' = idx + 1
           in case scan_healthy mem cands n start t 0 of
                Some p \<Rightarrow> (p, idx')
              | None \<Rightarrow> (cand_id (cands ! unat start), idx'))"

text \<open>\<^verbatim>\<open>FlowHashPolicy\<close>: the state is the constant flag \<^verbatim>\<open>skip_unhealthy_\<close>.\<close>

definition FlowHashPolicy_choose ::
  "slot_mem \<Rightarrow> nat \<Rightarrow> bool \<Rightarrow> CandidateRef list \<Rightarrow> PacketContext \<Rightarrow> PathId" where
  "FlowHashPolicy_choose mem t skip_unhealthy cands pkt =
     (let n = (word_of_nat (length cands) :: u32) in
      if n = 0 then 0
      else let base = flow_hash pkt mod n in
           if \<not> skip_unhealthy then cand_id (cands ! unat base)
           else case scan_healthy mem cands n base t 0 of
                  Some p \<Rightarrow> p
                | None \<Rightarrow> cand_id (cands ! unat base))"

text \<open>
  \<^verbatim>\<open>XorShift32\<close>: \<open>XorShift32 seed\<close> is the state the constructor sets; \<open>xorshift_next\<close> and
  \<open>next_bounded\<close> return the value and the new state.
\<close>

definition XorShift32 :: "u32 \<Rightarrow> u32" where
  "XorShift32 seed = (if seed \<noteq> 0 then seed else 0x9E3779B9)"

definition xorshift_next :: "u32 \<Rightarrow> u32 \<times> u32" where
  "xorshift_next state =
     (let x = state;
          x = x XOR push_bit 13 x;
          x = x XOR drop_bit 17 x;
          x = x XOR push_bit 5 x
      in (x, x))"

definition next_bounded :: "u32 \<Rightarrow> u32 \<Rightarrow> u32 \<times> u32" where
  "next_bounded state b =
     (if b \<noteq> 0 then (let (x, state') = xorshift_next state in (x mod b, state'))
      else (0, state))"

record LatencyAwareConfig =
  tie_margin_us :: u32
  explore_ppm :: u32
  prefer_qos_class :: bool

definition LatencyAwareConfig_init :: LatencyAwareConfig where
  "LatencyAwareConfig_init = \<lparr>tie_margin_us = 200, explore_ppm = 0, prefer_qos_class = True\<rparr>"

text \<open>
  The first loop of \<^verbatim>\<open>LatencyAwarePolicy::choose\<close> (minimum RTT among the healthy, with the
  QoS tie-break), from index \<open>i\<close>, on the locals \<^verbatim>\<open>best\<close>, \<^verbatim>\<open>have_best\<close>, \<^verbatim>\<open>bestm\<close>. The sum
  \<^verbatim>\<open>bestm.rtt_us + cfg_.tie_margin_us\<close> is a 32-bit sum and wraps.
\<close>

function la_healthy_pass ::
  "slot_mem \<Rightarrow> LatencyAwareConfig \<Rightarrow> PacketContext \<Rightarrow> CandidateRef list \<Rightarrow> nat \<Rightarrow> nat \<Rightarrow>
   nat \<times> bool \<times> PathMetrics \<Rightarrow> (nat \<times> bool \<times> PathMetrics) \<times> nat" where
  "la_healthy_pass mem cfg pkt cands t i (best, have_best, bestm) =
     (if i < length cands then
        (let (r, t') = load_metrics (slot_view mem (cands ! i)) t in
         case r of
           None \<Rightarrow> la_healthy_pass mem cfg pkt cands t' (i + 1) (best, have_best, bestm)
         | Some m \<Rightarrow>
             if \<not> healthy m then
               la_healthy_pass mem cfg pkt cands t' (i + 1) (best, have_best, bestm)
             else if \<not> have_best \<or> rtt_us m < rtt_us bestm then
               la_healthy_pass mem cfg pkt cands t' (i + 1) (i, True, m)
             else if prefer_qos_class cfg then
               (let close = (rtt_us m \<le> rtt_us bestm + tie_margin_us cfg) in
                if close \<and> qos_match (qos_class m) (dscp pkt)
                   \<and> \<not> qos_match (qos_class bestm) (dscp pkt)
                then la_healthy_pass mem cfg pkt cands t' (i + 1) (i, have_best, m)
                else la_healthy_pass mem cfg pkt cands t' (i + 1) (best, have_best, bestm))
             else la_healthy_pass mem cfg pkt cands t' (i + 1) (best, have_best, bestm))
      else ((best, have_best, bestm), t))"
  by pat_completeness auto
termination
  by (relation "measure (\<lambda>(mem, cfg, pkt, cands, t, i, acc). length cands - i)") auto

text \<open>The fallback loop (absolute minimum RTT, health ignored) on \<^verbatim>\<open>idx\<close>, \<^verbatim>\<open>init\<close>, \<^verbatim>\<open>minm\<close>.\<close>

function la_fallback_pass ::
  "slot_mem \<Rightarrow> CandidateRef list \<Rightarrow> nat \<Rightarrow> nat \<Rightarrow> nat \<times> bool \<times> PathMetrics \<Rightarrow>
   (nat \<times> bool \<times> PathMetrics) \<times> nat" where
  "la_fallback_pass mem cands t i (idx, init, minm) =
     (if i < length cands then
        (let (r, t') = load_metrics (slot_view mem (cands ! i)) t in
         case r of
           None \<Rightarrow> la_fallback_pass mem cands t' (i + 1) (idx, init, minm)
         | Some m \<Rightarrow>
             if \<not> init \<or> rtt_us m < rtt_us minm then
               la_fallback_pass mem cands t' (i + 1) (i, True, m)
             else la_fallback_pass mem cands t' (i + 1) (idx, init, minm))
      else ((idx, init, minm), t))"
  by pat_completeness auto
termination
  by (relation "measure (\<lambda>(mem, cands, t, i, acc). length cands - i)") auto

text \<open>
  The exploration loop. \<^verbatim>\<open>k != best\<close> compares the 32-bit \<^verbatim>\<open>k\<close> with the \<^verbatim>\<open>size_t\<close>
  \<^verbatim>\<open>best\<close>; when they are equal the slot is not read.
\<close>

function la_explore ::
  "slot_mem \<Rightarrow> CandidateRef list \<Rightarrow> u32 \<Rightarrow> u32 \<Rightarrow> nat \<Rightarrow> nat \<Rightarrow> u32 \<Rightarrow> PathId option" where
  "la_explore mem cands n start best t i =
     (if i < n then
        (let k = (start + i) mod n in
         if unat k \<noteq> best then
           (let (r, t') = load_metrics (slot_view mem (cands ! unat k)) t in
            case r of
              Some m \<Rightarrow> if healthy m then Some (cand_id (cands ! unat k))
                        else la_explore mem cands n start best t' (i + 1)
            | None \<Rightarrow> la_explore mem cands n start best t' (i + 1))
         else la_explore mem cands n start best t (i + 1))
      else None)"
  by pat_completeness auto
termination
proof -
  have step: "unat n - unat (i + 1) < unat n - unat i" if "i < n" for i n :: u32
  proof -
    from that have lt: "unat i < unat n" by (simp add: word_less_nat_alt)
    have "unat n < 2 ^ LENGTH(32)" by (rule unsigned_less)
    with lt have "(unat i + unat (1::u32)) mod 2 ^ LENGTH(32) = unat i + 1"
      by (simp only: unsigned_1) (rule mod_less, linarith)
    then have "unat (i + 1) = unat i + 1"
      by (simp only: unat_word_ariths(1))
    with lt show ?thesis by linarith
  qed
  show ?thesis
    by (relation "measure (\<lambda>(mem, cands, n, start, best, t, i). unat n - unat i)")
       (auto intro: step)
qed

text \<open>
  \<^verbatim>\<open>LatencyAwarePolicy::choose\<close>: the state is the configuration and the counter \<^verbatim>\<open>salt_\<close>;
  the new value of \<^verbatim>\<open>salt_\<close> is returned with the path.
\<close>

definition LatencyAwarePolicy_choose ::
  "slot_mem \<Rightarrow> nat \<Rightarrow> LatencyAwareConfig \<Rightarrow> u32 \<Rightarrow> CandidateRef list \<Rightarrow> PacketContext \<Rightarrow>
   PathId \<times> u32" where
  "LatencyAwarePolicy_choose mem t cfg salt cands pkt =
     (if cands = [] then (0, salt)
      else
        (let ((best, have_best, bestm), t1) =
               la_healthy_pass mem cfg pkt cands t 0 (0, False, PathMetrics_init)
         in if \<not> have_best then
              (let ((idx, init, minm), t2) =
                     la_fallback_pass mem cands t1 0 (0, False, PathMetrics_init)
               in (cand_id (cands ! (if init then idx else 0)), salt))
            else if explore_ppm cfg \<noteq> 0 then
              (let rng = XorShift32 (flow_hash pkt XOR salt);
                   (r, rng1) = next_bounded rng 1000000
               in if r < explore_ppm cfg then
                    (let n = (word_of_nat (length cands) :: u32);
                         (start, rng2) = next_bounded rng1 n
                     in case la_explore mem cands n start best t1 0 of
                          Some p \<Rightarrow> (p, salt + 0x9E37)
                        | None \<Rightarrow> (cand_id (cands ! best), salt))
                  else (cand_id (cands ! best), salt))
            else (cand_id (cands ! best), salt)))"

section \<open>Policy binding (policy\_binding.hpp, policy\_binding.cpp)\<close>

text \<open>
  A \<^verbatim>\<open>ChooseFn\<close> is called with the state pointer, the candidates and the packet; what it
  reads and writes through the pointer is the store \<open>'h\<close>, passed in and returned. A pointer
  is an address, \<open>None\<close> is \<^verbatim>\<open>nullptr\<close>.
\<close>

type_synonym 'h ChooseFn = "nat \<Rightarrow> CandidateRef list \<Rightarrow> PacketContext \<Rightarrow> 'h \<Rightarrow> PathId \<times> 'h"

record 'h PolicyBinding =
  b_seq :: u32
  b_fn :: "'h ChooseFn option"
  b_state :: "nat option"

definition PolicyBinding_init :: "'h PolicyBinding" where
  "PolicyBinding_init = \<lparr>b_seq = 0, b_fn = None, b_state = None\<rparr>"

text \<open>The binding after each store of \<^verbatim>\<open>cp::publish_policy\<close> and of \<^verbatim>\<open>cp::clear_policy\<close>.\<close>

definition publish_policy_steps ::
  "'h PolicyBinding \<Rightarrow> nat \<Rightarrow> 'h ChooseFn \<Rightarrow> 'h PolicyBinding list" where
  "publish_policy_steps b policy thunk =
     (let start = b_seq b;
          b1 = b\<lparr>b_seq := start OR 1\<rparr>;
          b2 = b1\<lparr>b_state := Some policy\<rparr>;
          b3 = b2\<lparr>b_fn := Some thunk\<rparr>;
          b4 = b3\<lparr>b_seq := (start OR 1) + 1\<rparr>
      in [b1, b2, b3, b4])"

definition publish_policy :: "'h PolicyBinding \<Rightarrow> nat \<Rightarrow> 'h ChooseFn \<Rightarrow> 'h PolicyBinding" where
  "publish_policy b policy thunk = last (publish_policy_steps b policy thunk)"

definition clear_policy_steps :: "'h PolicyBinding \<Rightarrow> 'h PolicyBinding list" where
  "clear_policy_steps b =
     (let start = b_seq b;
          b1 = b\<lparr>b_seq := start OR 1\<rparr>;
          b2 = b1\<lparr>b_fn := None\<rparr>;
          b3 = b2\<lparr>b_state := None\<rparr>;
          b4 = b3\<lparr>b_seq := (start OR 1) + 1\<rparr>
      in [b1, b2, b3, b4])"

definition clear_policy :: "'h PolicyBinding \<Rightarrow> 'h PolicyBinding" where
  "clear_policy b = last (clear_policy_steps b)"

text \<open>
  \<^verbatim>\<open>dp::snapshot_binding\<close>, on the reader's side of the binding (\<open>b \<tau>\<close> is the binding as
  access number \<open>\<tau>\<close> finds it; an iteration makes one access when \<^verbatim>\<open>s1\<close> is odd and four
  otherwise). The loop returns the C++ return value, \<^verbatim>\<open>out_fn\<close>, \<^verbatim>\<open>out_state\<close>, the number of
  the next access, and a flag telling whether it returned from inside the loop (an
  iteration accepted) or after it (the retries are used up).
\<close>

function snapshot_binding_loop ::
  "(nat \<Rightarrow> 'h PolicyBinding) \<Rightarrow> nat \<Rightarrow> nat \<Rightarrow>
   bool \<times> 'h ChooseFn option \<times> nat option \<times> nat \<times> bool" where
  "snapshot_binding_loop b t i =
     (if i < 4 then
        (let s1 = b_seq (b t) in
         if s1 AND 1 \<noteq> 0 then snapshot_binding_loop b (t + 1) (i + 1)
         else
           (let fn = b_fn (b (t + 1));
                st = b_state (b (t + 2));
                s2 = b_seq (b (t + 3))
            in if s1 = s2 \<and> s2 mod 2 = 0 then (fn \<noteq> None \<and> st \<noteq> None, fn, st, t + 4, True)
               else snapshot_binding_loop b (t + 4) (i + 1)))
      else (False, None, None, t, False))"
  by pat_completeness auto
termination
  by (relation "measure (\<lambda>(b, t, i). 4 - i)") auto

definition snapshot_binding ::
  "(nat \<Rightarrow> 'h PolicyBinding) \<Rightarrow> nat \<Rightarrow> bool \<times> 'h ChooseFn option \<times> nat option" where
  "snapshot_binding b t = (let (ok, fn, st, t', acc) = snapshot_binding_loop b t 0 in (ok, fn, st))"

text \<open>
  \<^verbatim>\<open>dp::select_path\<close>. The call \<^verbatim>\<open>fn(st, cands, pkt)\<close> is made only after \<^verbatim>\<open>snapshot_binding\<close>
  returned true, which it does only with both pointers set.
\<close>

definition select_path ::
  "(nat \<Rightarrow> 'h PolicyBinding) \<Rightarrow> nat \<Rightarrow> CandidateRef list \<Rightarrow> PacketContext \<Rightarrow> 'h \<Rightarrow> PathId \<times> 'h" where
  "select_path b t cands pkt h =
     (let (ok, fn, st) = snapshot_binding b t in
      if \<not> ok then (0, h)
      else (the fn) (the st) cands pkt h)"

section \<open>Service registry (pop.hpp, service\_registry.hpp, service\_registry.cpp)\<close>

datatype Health = Up | Degraded | Down

text \<open>\<^verbatim>\<open>Pop\<close>; the member \<^verbatim>\<open>id\<close> is the field \<open>pop_id\<close>.\<close>

record Pop =
  pop_id :: string
  region :: string
  ip :: string
  weight :: u16
  health :: Health

type_synonym PopList = "Pop list"

datatype RegistryErr = Ok | Exists | NotFound | Invalid | Capacity

definition MaxServices :: nat where "MaxServices = 128"
definition MaxPopsPerService :: nat where "MaxPopsPerService = 32"
definition MaxIdLen :: nat where "MaxIdLen = 32"
definition MaxRegionLen :: nat where "MaxRegionLen = 32"
definition MaxIpLen :: nat where "MaxIpLen = 64"

text \<open>
  The test \<^verbatim>\<open>ok\<close> in the loop of \<^verbatim>\<open>validateId\<close>. Characters are ordered by their code; a
  byte above 127 fails every range test here as it does for a signed \<^verbatim>\<open>char\<close>.
\<close>

definition id_char_ok :: "char \<Rightarrow> bool" where
  "id_char_ok c =
     (c = CHR ''_'' \<or> c = CHR ''-'' \<or>
      (CHR ''0'' \<le> c \<and> c \<le> CHR ''9'') \<or>
      (CHR ''A'' \<le> c \<and> c \<le> CHR ''Z'') \<or>
      (CHR ''a'' \<le> c \<and> c \<le> CHR ''z''))"

definition validateId :: "string \<Rightarrow> nat \<Rightarrow> bool" where
  "validateId sid maxLen =
     (if sid = [] \<or> length sid > maxLen then False
      else if length sid < 2 then False
      else list_all id_char_ok sid)"

text \<open>
  \<^verbatim>\<open>inet_pton\<close> belongs to the C library, not to the repository: it is a parameter \<open>pton\<close> of
  the model, called with the address family and the C string. \<open>c_str\<close> is the C string of
  a \<^verbatim>\<open>std::string\<close>: it ends at the first NUL.
\<close>

datatype AddrFamily = AF_INET | AF_INET6

type_synonym inet_pton = "AddrFamily \<Rightarrow> string \<Rightarrow> int"

definition c_str :: "string \<Rightarrow> string" where
  "c_str s = takeWhile (\<lambda>c. c \<noteq> CHR 0x00) s"

definition validateIp :: "inet_pton \<Rightarrow> string \<Rightarrow> bool" where
  "validateIp pton addr =
     (if addr = [] \<or> length addr > MaxIpLen then False
      else if pton AF_INET (c_str addr) = 1 then True
      else if pton AF_INET6 (c_str addr) = 1 then True
      else False)"

text \<open>
  The loop of \<^verbatim>\<open>validatePops\<close>: \<open>None\<close> when a pop fails a check, otherwise the ids pushed
  to \<^verbatim>\<open>ids\<close>. \<open>adjacent_find\<close> is \<^verbatim>\<open>std::adjacent_find\<close>: the position of the first element
  equal to its successor, \<open>None\<close> for the end iterator.
\<close>

fun validatePops_loop :: "inet_pton \<Rightarrow> PopList \<Rightarrow> string list \<Rightarrow> string list option" where
  "validatePops_loop pton [] ids = Some ids"
| "validatePops_loop pton (p # ps) ids =
     (if \<not> validateId (pop_id p) MaxIdLen then None
      else if \<not> validateId (region p) MaxRegionLen then None
      else if \<not> validateIp pton (ip p) then None
      else validatePops_loop pton ps (ids @ [pop_id p]))"

fun adjacent_find :: "'a list \<Rightarrow> nat option" where
  "adjacent_find (x # y # xs) =
     (if x = y then Some 0 else map_option Suc (adjacent_find (y # xs)))"
| "adjacent_find _ = None"

definition validatePops :: "inet_pton \<Rightarrow> PopList \<Rightarrow> bool" where
  "validatePops pton pops =
     (if pops = [] \<or> length pops > MaxPopsPerService then False
      else case validatePops_loop pton pops [] of
             None \<Rightarrow> False
           | Some ids \<Rightarrow> (if adjacent_find (sort ids) \<noteq> None then False else True))"

text \<open>
  \<^verbatim>\<open>Map\<close> is a \<^verbatim>\<open>std::unordered_map\<close> from service id to pop list: here a list of pairs with
  one pair per key. \<^verbatim>\<open>find\<close> is \<open>map_of\<close>; \<open>umap_emplace\<close> is \<^verbatim>\<open>emplace\<close>, which inserts
  only when the key is absent and otherwise leaves the map as it is; \<open>umap_assign\<close> is the
  assignment \<^verbatim>\<open>it->second = pops\<close>; \<open>umap_erase\<close> is \<^verbatim>\<open>erase\<close>.
\<close>

type_synonym Map = "(string \<times> PopList) list"

definition umap_emplace :: "Map \<Rightarrow> string \<Rightarrow> PopList \<Rightarrow> Map" where
  "umap_emplace m k v = (if map_of m k = None then m @ [(k, v)] else m)"

definition umap_assign :: "Map \<Rightarrow> string \<Rightarrow> PopList \<Rightarrow> Map" where
  "umap_assign m k v = map (\<lambda>(k', v'). if k' = k then (k', v) else (k', v')) m"

definition umap_erase :: "Map \<Rightarrow> string \<Rightarrow> Map" where
  "umap_erase m k = filter (\<lambda>(k', v'). k' \<noteq> k) m"

text \<open>
  The registry: the published snapshot \<^verbatim>\<open>map_\<close> (\<open>None\<close> for a null \<^verbatim>\<open>shared_ptr\<close>), the
  version and the five counters, all \<^verbatim>\<open>uint64_t\<close>.
\<close>

record ServiceRegistry =
  m_map :: "Map option"
  m_version :: u64
  m_adds :: u64
  m_replaces :: u64
  m_upserts :: u64
  m_removes :: u64
  m_failures :: u64

definition ServiceRegistry_init :: ServiceRegistry where
  "ServiceRegistry_init =
     \<lparr>m_map = Some [], m_version = 0, m_adds = 0, m_replaces = 0, m_upserts = 0,
      m_removes = 0, m_failures = 0\<rparr>"

definition snapshot :: "ServiceRegistry \<Rightarrow> Map option" where
  "snapshot r = m_map r"

definition getPopsCopy :: "ServiceRegistry \<Rightarrow> string \<Rightarrow> PopList" where
  "getPopsCopy r service_id =
     (case snapshot r of
        None \<Rightarrow> []
      | Some snap \<Rightarrow> (case map_of snap service_id of None \<Rightarrow> [] | Some pops \<Rightarrow> pops))"

definition hasService :: "ServiceRegistry \<Rightarrow> string \<Rightarrow> bool" where
  "hasService r service_id =
     (case snapshot r of None \<Rightarrow> False | Some snap \<Rightarrow> map_of snap service_id \<noteq> None)"

definition registry_size :: "ServiceRegistry \<Rightarrow> nat" where
  "registry_size r = (case snapshot r of None \<Rightarrow> 0 | Some snap \<Rightarrow> length snap)"

definition version :: "ServiceRegistry \<Rightarrow> u64" where
  "version r = m_version r"

datatype Mode = Add | Replace | Upsert

text \<open>
  \<^verbatim>\<open>ServiceRegistry::mutate\<close>. Every \<^verbatim>\<open>return\<close> of the source is a branch; the statements
  after the \<^verbatim>\<open>switch\<close> are not reached, since the three modes are all there are.
\<close>

text \<open>\<open>fail e\<close> is the pair of statements \<^verbatim>\<open>failures_.fetch_add(1); return e;\<close>.\<close>

definition fail :: "RegistryErr \<Rightarrow> ServiceRegistry \<Rightarrow> RegistryErr \<times> ServiceRegistry" where
  "fail e r = (e, r\<lparr>m_failures := m_failures r + 1\<rparr>)"

definition mutate ::
  "inet_pton \<Rightarrow> Mode \<Rightarrow> string \<Rightarrow> PopList \<Rightarrow> ServiceRegistry \<Rightarrow> RegistryErr \<times> ServiceRegistry" where
  "mutate pton mode service_id pops r =
     (if \<not> validateId service_id MaxIdLen then fail Invalid r
      else if \<not> validatePops pton pops then fail Invalid r
      else case snapshot r of
             None \<Rightarrow> fail Invalid r
           | Some snap \<Rightarrow>
               if length snap > MaxServices then fail Capacity r
               else
                 (let next = snap;
                      exists = (map_of next service_id \<noteq> None)
                  in case mode of
                       Add \<Rightarrow>
                         if exists then fail Exists r
                         else (Ok, r\<lparr>m_map := Some (umap_emplace next service_id pops),
                                     m_version := m_version r + 1,
                                     m_adds := m_adds r + 1\<rparr>)
                     | Replace \<Rightarrow>
                         if \<not> exists then fail NotFound r
                         else (Ok, r\<lparr>m_map := Some (umap_assign next service_id pops),
                                     m_version := m_version r + 1,
                                     m_replaces := m_replaces r + 1\<rparr>)
                     | Upsert \<Rightarrow>
                         (Ok, r\<lparr>m_map := Some (umap_emplace next service_id pops),
                                m_version := m_version r + 1,
                                m_upserts := m_upserts r + 1\<rparr>)))"

definition addService ::
  "inet_pton \<Rightarrow> string \<Rightarrow> PopList \<Rightarrow> ServiceRegistry \<Rightarrow> RegistryErr \<times> ServiceRegistry" where
  "addService pton service_id pops r = mutate pton Add service_id pops r"

definition replaceService ::
  "inet_pton \<Rightarrow> string \<Rightarrow> PopList \<Rightarrow> ServiceRegistry \<Rightarrow> RegistryErr \<times> ServiceRegistry" where
  "replaceService pton service_id pops r = mutate pton Replace service_id pops r"

definition upsertService ::
  "inet_pton \<Rightarrow> string \<Rightarrow> PopList \<Rightarrow> ServiceRegistry \<Rightarrow> RegistryErr \<times> ServiceRegistry" where
  "upsertService pton service_id pops r = mutate pton Upsert service_id pops r"

definition removeService :: "string \<Rightarrow> ServiceRegistry \<Rightarrow> bool \<times> ServiceRegistry" where
  "removeService service_id r =
     (case snapshot r of
        None \<Rightarrow> (False, r)
      | Some snap \<Rightarrow>
          if snap = [] then (False, r)
          else if map_of snap service_id = None then (False, r)
          else (True, r\<lparr>m_map := Some (umap_erase snap service_id),
                         m_version := m_version r + 1,
                         m_removes := m_removes r + 1\<rparr>))"

definition clear :: "ServiceRegistry \<Rightarrow> ServiceRegistry" where
  "clear r = r\<lparr>m_map := Some [], m_version := m_version r + 1\<rparr>"

subsection \<open>Sample registries\<close>

text \<open>
  \<open>sample_pton\<close> stands for the C library's parser at the closed examples below: it
  accepts, as IPv4, the address literals of the repository's tests and nothing else.
  \<open>svc_name i\<close> is a service id made of \<open>1 + i div 16\<close> letters \<^verbatim>\<open>a\<close> followed by
  \<open>1 + i mod 16\<close> letters \<^verbatim>\<open>b\<close>: a different id for every \<open>i\<close>, valid for \<open>i < 256\<close>.
  \<open>registry_after_adds n\<close> is a fresh registry after \<^verbatim>\<open>addService\<close> was called for the ids
  \<open>svc_name 0\<close> to \<open>svc_name (n - 1)\<close>. \<open>listA\<close> and \<open>listB\<close> are the two pop lists of the
  test \<^verbatim>\<open>Registry_Concurrency_1W_MR\<close>, \<open>pop_pp\<close> is the pop of \<^verbatim>\<open>Registry_Remove_Existing\<close>
  and \<open>pop_bad_ip\<close> the first pop of \<^verbatim>\<open>Registry_Validation_Rejections_DoNotPublish\<close>.
  \<open>id_alphabet\<close> is the character class \<^verbatim>\<open>[A-Za-z0-9_-]\<close> written out.
\<close>

definition sample_pton :: inet_pton where
  "sample_pton af s =
     (if af = AF_INET \<and>
         s \<in> set [''192.0.2.10'', ''192.0.2.30'', ''198.51.100.20'', ''203.0.113.1'',
                  ''203.0.113.2'', ''203.0.113.3'', ''203.0.113.10'', ''203.0.113.11'']
      then 1 else 0)"

definition pop_nyc :: Pop where
  "pop_nyc = \<lparr>pop_id = ''nyc'', region = ''us-east'', ip = ''192.0.2.10'', weight = 100, health = Up\<rparr>"

definition pop_pp :: Pop where
  "pop_pp = \<lparr>pop_id = ''pp'', region = ''r'', ip = ''203.0.113.3'', weight = 100, health = Up\<rparr>"

definition pop_bad_ip :: Pop where
  "pop_bad_ip = \<lparr>pop_id = ''ny'', region = ''r1'', ip = ''not_an_ip'', weight = 100, health = Up\<rparr>"

definition listA :: PopList where
  "listA =
     [\<lparr>pop_id = ''a1'', region = ''ra'', ip = ''203.0.113.1'', weight = 100, health = Up\<rparr>,
      \<lparr>pop_id = ''a2'', region = ''ra'', ip = ''203.0.113.2'', weight = 100, health = Up\<rparr>]"

definition listB :: PopList where
  "listB =
     [\<lparr>pop_id = ''b1'', region = ''rb'', ip = ''203.0.113.3'', weight = 100, health = Up\<rparr>]"

definition svc_name :: "nat \<Rightarrow> string" where
  "svc_name i = replicate (1 + i div 16) CHR ''a'' @ replicate (1 + i mod 16) CHR ''b''"

definition svc_entries :: "nat \<Rightarrow> Map" where
  "svc_entries n = map (\<lambda>i. (svc_name i, [pop_nyc])) [0..<n]"

definition registry_after_adds :: "nat \<Rightarrow> ServiceRegistry" where
  "registry_after_adds n =
     fold (\<lambda>i r. snd (addService sample_pton (svc_name i) [pop_nyc] r)) [0..<n]
       ServiceRegistry_init"

definition id_alphabet :: "char set" where
  "id_alphabet =
     set (''ABCDEFGHIJKLMNOPQRSTUVWXYZ'' @ ''abcdefghijklmnopqrstuvwxyz'' @ ''0123456789'' @ ''_-'')"

section \<open>Sample inputs\<close>

text \<open>
  Concrete memories, candidates and bindings at which the properties below are evaluated.
  \<open>parked_slot\<close> is a slot whose writer stopped between its two stores of \<^verbatim>\<open>seq\<close>;
  \<open>racing_view\<close> is a slot as a reader finds it while \<^verbatim>\<open>update_metrics\<close> publishes
  \<open>healthy_metrics\<close> into a fresh slot: one store of the writer lands before each of the
  reader's first three accesses;
  \<open>quiet_mem\<close> is a memory in which every slot is as constructed and no writer runs;
  \<open>parked_mem\<close> one in which every slot is parked. \<open>choose_thunk_RoundRobin\<close> is
  \<^verbatim>\<open>detail::choose_thunk<RoundRobinPolicy>\<close> over a store that maps the address of a policy
  object to its counter \<^verbatim>\<open>idx_\<close>, and \<open>bound_rr\<close> is a binding to which a round-robin policy
  at address 7 was published and which stays as it is.
\<close>

definition parked_slot :: MetricsSlot where
  "parked_slot = \<lparr>seq = 1, metrics = PathMetrics_init\<rparr>"

definition healthy_metrics :: PathMetrics where
  "healthy_metrics =
     \<lparr>rtt_us = 1500, one_way_delay_us = 700, loss_ppm = 0, avail_kbps = 10000, qos_class = 1,
      healthy = True\<rparr>"

definition racing_view :: "nat \<Rightarrow> MetricsSlot" where
  "racing_view \<tau> = update_metrics_steps MetricsSlot_init healthy_metrics ! min \<tau> 2"

definition quiet_mem :: slot_mem where
  "quiet_mem = (\<lambda>\<tau> a. MetricsSlot_init)"

definition parked_mem :: slot_mem where
  "parked_mem = (\<lambda>\<tau> a. parked_slot)"

definition cand1 :: CandidateRef where
  "cand1 = \<lparr>cand_id = 1, cand_slot = 0\<rparr>"

definition cand7 :: CandidateRef where
  "cand7 = \<lparr>cand_id = 7, cand_slot = 1\<rparr>"

definition cand9 :: CandidateRef where
  "cand9 = \<lparr>cand_id = 9, cand_slot = 2\<rparr>"

definition pkt0 :: PacketContext where
  "pkt0 = \<lparr>flow_hash = 0, dscp = 0\<rparr>"

definition choose_thunk_RoundRobin :: "slot_mem \<Rightarrow> nat \<Rightarrow> (nat \<Rightarrow> u32) ChooseFn" where
  "choose_thunk_RoundRobin mem t state cands pkt h =
     (let (p, idx') = RoundRobinPolicy_choose mem t (h state) cands pkt in (p, h(state := idx')))"

definition bound_rr :: "nat \<Rightarrow> (nat \<Rightarrow> u32) PolicyBinding" where
  "bound_rr = (\<lambda>\<tau>. publish_policy PolicyBinding_init 7 (choose_thunk_RoundRobin quiet_mem 0))"

definition rr_store :: "nat \<Rightarrow> u32" where
  "rr_store = (\<lambda>a. 0)"


chapter \<open>Properties\<close>

declare load_metrics_loop.simps [simp del]
declare snapshot_binding_loop.simps [simp del]
declare scan_healthy.simps [simp del]
declare la_healthy_pass.simps [simp del]
declare la_fallback_pass.simps [simp del]
declare la_explore.simps [simp del]

section \<open>Word arithmetic of the ring indices\<close>

lemma pow2_dvd_word64: "k < 64 \<Longrightarrow> (2::nat) ^ k dvd 2 ^ LENGTH(64)"
  by (rule le_imp_power_dvd) simp

lemma pow2_lt_word64: "k < 64 \<Longrightarrow> (2::nat) ^ k < 2 ^ LENGTH(64)"
  by (rule power_strict_increasing) simp_all

lemma unat_pow2_64: "k < 64 \<Longrightarrow> unat ((2::64 word) ^ k) = 2 ^ k"
proof -
  assume k: "k < 64"
  have "(2::64 word) ^ k = word_of_nat (2 ^ k)" by simp
  then have "unat ((2::64 word) ^ k) = 2 ^ k mod 2 ^ LENGTH(64)"
    by (simp only: unat_of_nat)
  also have "\<dots> = 2 ^ k"
    using pow2_lt_word64 [OF k] by (rule mod_less)
  finally show ?thesis .
qed

lemma unat_and_pow2m1: "unat ((x::64 word) AND (2 ^ k - 1)) = unat x mod 2 ^ k"
proof -
  have "(2::64 word) ^ k - 1 = mask k" by (simp add: mask_eq_exp_minus_1)
  then have "unat (x AND (2 ^ k - 1)) = unat (take_bit k x)"
    by (simp add: take_bit_eq_mask)
  also have "\<dots> = take_bit k (unat x)"
    by (rule unsigned_take_bit_eq)
  finally show ?thesis by (simp add: take_bit_eq_mod)
qed

lemma unat_succ_and_mask:
  assumes k: "k < 64"
  shows "unat (((w::64 word) + 1) AND (2 ^ k - 1)) = (unat w + 1) mod 2 ^ k"
proof -
  have "unat (w + 1) = (unat w + unat (1::64 word)) mod 2 ^ LENGTH(64)"
    by (rule unat_word_ariths(1))
  then have "unat ((w + 1) AND (2 ^ k - 1)) = ((unat w + 1) mod 2 ^ LENGTH(64)) mod 2 ^ k"
    by (simp only: unat_and_pow2m1 unsigned_1)
  also have "\<dots> = (unat w + 1) mod 2 ^ k"
    by (rule mod_mod_cancel [OF pow2_dvd_word64 [OF k]])
  finally show ?thesis .
qed

lemma unat_dist_and_mask:
  assumes k: "k < 64" and h: "unat h < 2 ^ k" and t: "unat t < 2 ^ k"
  shows "unat (((t::64 word) + 2 ^ k - h) AND (2 ^ k - 1)) = (unat t + 2 ^ k - unat h) mod 2 ^ k"
proof -
  have "(2::nat) ^ k + 2 ^ k = 2 ^ Suc k" by simp
  also have "\<dots> \<le> 2 ^ LENGTH(64)"
    using k by (intro power_increasing) simp_all
  finally have "unat t + unat ((2::64 word) ^ k) < 2 ^ LENGTH(64)"
    using t by (simp only: unat_pow2_64 [OF k])
  then have e: "unat (t + 2 ^ k) = unat t + 2 ^ k"
    by (simp only: unat_add_lem [THEN iffD1] unat_pow2_64 [OF k])
  then have "h \<le> t + 2 ^ k"
    using h by (simp add: word_le_nat_alt)
  then have "unat (t + 2 ^ k - h) = unat t + 2 ^ k - unat h"
    using e by (simp add: unat_sub)
  then show ?thesis by (simp only: unat_and_pow2m1)
qed

section \<open>The ring invariant\<close>

lemma mod_lt_twice: "(a::nat) < 2 * c \<Longrightarrow> a mod c = (if a < c then a else a - c)"
  by (simp add: mod_if)

lemma ring_rep_tail_lt: "ring_rep k q xs \<Longrightarrow> unat (m_tail q) < 2 ^ k"
  by (simp add: ring_rep_def)

lemma ring_next_tail:
  assumes "ring_rep k q xs"
  shows "unat ((m_tail q + 1) AND m_mask q) = (unat (m_head q) + Suc (length xs)) mod 2 ^ k"
proof -
  from assms have k: "k < 64" and m: "m_mask q = 2 ^ k - 1"
    and t: "unat (m_tail q) = (unat (m_head q) + length xs) mod 2 ^ k"
    by (simp_all add: ring_rep_def)
  have "unat ((m_tail q + 1) AND m_mask q) = (unat (m_tail q) + 1) mod 2 ^ k"
    by (simp only: m unat_succ_and_mask [OF k])
  also have "\<dots> = (unat (m_head q) + Suc (length xs)) mod 2 ^ k"
    by (simp add: t mod_Suc_eq)
  finally show ?thesis .
qed

lemma ring_full_iff:
  assumes "ring_rep k q xs"
  shows "(m_tail q + 1) AND m_mask q = m_head q \<longleftrightarrow> Suc (length xs) = 2 ^ k"
proof -
  from assms have h: "unat (m_head q) < 2 ^ k" and n: "length xs < 2 ^ k"
    by (simp_all add: ring_rep_def)
  have "(m_tail q + 1) AND m_mask q = m_head q
        \<longleftrightarrow> unat ((m_tail q + 1) AND m_mask q) = unat (m_head q)"
    by (simp add: word_unat_eq_iff)
  also have "\<dots> \<longleftrightarrow> (unat (m_head q) + Suc (length xs)) mod 2 ^ k = unat (m_head q)"
    by (simp only: ring_next_tail [OF assms])
  also have "\<dots> \<longleftrightarrow> Suc (length xs) = 2 ^ k"
    using h n by (subst mod_lt_twice) auto
  finally show ?thesis .
qed

lemma ring_slot_distinct:
  assumes "h < (c::nat)" and "i < n" and "n < c"
  shows "(h + i) mod c \<noteq> (h + n) mod c"
  using assms by (subst mod_lt_twice, simp, subst mod_lt_twice, simp) (auto split: if_splits)

lemma push_full:
  assumes "ring_rep k q xs" and "Suc (length xs) = 2 ^ k"
  shows "push v q = (False, q)"
  using ring_full_iff [OF assms(1)] assms(2) by (simp add: push_def Let_def)

lemma push_ok:
  assumes r: "ring_rep k q xs" and n: "Suc (length xs) < 2 ^ k"
  shows "\<exists>q'. push v q = (True, q') \<and> ring_rep k q' (xs @ [v])"
proof -
  let ?q' = "q\<lparr>m_buf := (m_buf q)[unat (m_tail q) := v], m_tail := (m_tail q + 1) AND m_mask q\<rparr>"
  from r have h: "unat (m_head q) < 2 ^ k" and len: "length (m_buf q) = 2 ^ k"
    and t: "unat (m_tail q) = (unat (m_head q) + length xs) mod 2 ^ k"
    and slots: "\<forall>i<length xs. m_buf q ! ((unat (m_head q) + i) mod 2 ^ k) = xs ! i"
    by (simp_all add: ring_rep_def)
  have nf: "(m_tail q + 1) AND m_mask q \<noteq> m_head q"
    using ring_full_iff [OF r] n by simp
  then have p: "push v q = (True, ?q')"
    by (simp add: push_def Let_def)
  have tl: "unat (m_tail q) < length (m_buf q)"
    using ring_rep_tail_lt [OF r] len by simp
  have new: "\<forall>i<length (xs @ [v]). m_buf ?q' ! ((unat (m_head ?q') + i) mod 2 ^ k) = (xs @ [v]) ! i"
  proof (intro allI impI)
    fix i assume i: "i < length (xs @ [v])"
    show "m_buf ?q' ! ((unat (m_head ?q') + i) mod 2 ^ k) = (xs @ [v]) ! i"
    proof (cases "i < length xs")
      case True
      have "(unat (m_head q) + i) mod 2 ^ k \<noteq> unat (m_tail q)"
        unfolding t using h True n by (intro ring_slot_distinct) simp_all
      then show ?thesis using True slots by (simp add: nth_append)
    next
      case False
      then have "i = length xs" using i by simp
      then show ?thesis using tl t by (simp add: nth_append)
    qed
  qed
  have "ring_rep k ?q' (xs @ [v])"
    unfolding ring_rep_def
    using r n new ring_next_tail [OF r] by (simp add: ring_rep_def)
  with p show ?thesis by blast
qed

lemma ring_empty_iff:
  assumes "ring_rep k q xs"
  shows "m_head q = m_tail q \<longleftrightarrow> xs = []"
proof -
  from assms have h: "unat (m_head q) < 2 ^ k" and n: "length xs < 2 ^ k"
    and t: "unat (m_tail q) = (unat (m_head q) + length xs) mod 2 ^ k"
    by (simp_all add: ring_rep_def)
  have "m_head q = m_tail q \<longleftrightarrow> unat (m_head q) = (unat (m_head q) + length xs) mod 2 ^ k"
    by (simp add: word_unat_eq_iff t)
  also have "\<dots> \<longleftrightarrow> length xs = 0"
    using h n by (subst mod_lt_twice) auto
  finally show ?thesis by simp
qed

lemma pop_empty:
  assumes "ring_rep k q []"
  shows "pop q = (None, q)"
  using ring_empty_iff [OF assms] by (simp add: pop_def Let_def)

lemma pop_ok:
  assumes r: "ring_rep k q (x # xs)"
  shows "\<exists>q'. pop q = (Some x, q') \<and> ring_rep k q' xs"
proof -
  let ?q' = "q\<lparr>m_head := (m_head q + 1) AND m_mask q\<rparr>"
  from r have k: "k < 64" and m: "m_mask q = 2 ^ k - 1" and h: "unat (m_head q) < 2 ^ k"
    and t: "unat (m_tail q) = (unat (m_head q) + Suc (length xs)) mod 2 ^ k"
    and slots: "\<forall>i<Suc (length xs). m_buf q ! ((unat (m_head q) + i) mod 2 ^ k) = (x # xs) ! i"
    by (simp_all add: ring_rep_def)
  have ne: "m_head q \<noteq> m_tail q"
    using ring_empty_iff [OF r] by simp
  from slots have "m_buf q ! ((unat (m_head q) + 0) mod 2 ^ k) = (x # xs) ! 0"
    by blast
  then have x: "m_buf q ! unat (m_head q) = x"
    using h by simp
  have p: "pop q = (Some x, ?q')"
    using ne x by (simp add: pop_def Let_def)
  have h': "unat (m_head ?q') = (unat (m_head q) + 1) mod 2 ^ k"
    by (simp add: m unat_succ_and_mask [OF k])
  have s: "(unat (m_head ?q') + i) mod 2 ^ k = (unat (m_head q) + Suc i) mod 2 ^ k" for i
    unfolding h' by (simp add: mod_add_left_eq)
  have "\<forall>i<length xs. m_buf ?q' ! ((unat (m_head ?q') + i) mod 2 ^ k) = xs ! i"
  proof (intro allI impI)
    fix i assume "i < length xs"
    then have "m_buf q ! ((unat (m_head q) + Suc i) mod 2 ^ k) = (x # xs) ! Suc i"
      using slots by (metis Suc_less_eq)
    then show "m_buf ?q' ! ((unat (m_head ?q') + i) mod 2 ^ k) = xs ! i"
      by (simp only: s) simp
  qed
  moreover have "unat (m_tail ?q') = (unat (m_head ?q') + length xs) mod 2 ^ k"
    using t by (simp only: s) simp
  moreover have "unat (m_head ?q') < 2 ^ k"
    unfolding h' by simp
  ultimately have "ring_rep k ?q' xs"
    using r by (simp add: ring_rep_def)
  with p show ?thesis by blast
qed

lemma ring_size:
  assumes r: "ring_rep k q xs"
  shows "unat (approx_size q) = length xs"
proof -
  from r have k: "k < 64" and m: "m_mask q = 2 ^ k - 1" and c: "m_capacity q = 2 ^ k" 
    and h: "unat (m_head q) < 2 ^ k" and n: "length xs < 2 ^ k"
    and t: "unat (m_tail q) = (unat (m_head q) + length xs) mod 2 ^ k"
    by (simp_all add: ring_rep_def)
  have "unat (approx_size q) = (unat (m_tail q) + 2 ^ k - unat (m_head q)) mod 2 ^ k"
    by (simp add: approx_size_def Let_def m c unat_dist_and_mask [OF k h ring_rep_tail_lt [OF r]])
  also have "\<dots> = length xs"
    unfolding t using h n
    by (subst mod_lt_twice [of "unat (m_head q) + length xs"], simp, subst mod_lt_twice) (auto split: if_splits)
  finally show ?thesis .
qed

lemma pow2_and_pred_64: "((2::64 word) ^ k) AND (2 ^ k - 1) = 0"
proof -
  have "(2::64 word) ^ k - 1 = mask k" by (simp add: mask_eq_exp_minus_1)
  then have "((2::64 word) ^ k) AND (2 ^ k - 1) = take_bit k (2 ^ k)"
    by (simp add: take_bit_eq_mask)
  also have "\<dots> = 0" by (simp add: take_bit_eq_mod)
  finally show ?thesis .
qed

lemma with_capacity_pow2:
  assumes k: "k < 64"
  shows "with_capacity True (Some f) (2 ^ k)
           = Inr \<lparr>m_head = 0, m_tail = 0, m_buf = map f [0..<2 ^ k], m_capacity = 2 ^ k,
                   m_mask = 2 ^ k - 1\<rparr>"
proof -
  have nz: "(2::64 word) ^ k \<noteq> 0"
    using unat_pow2_64 [OF k] by (metis power_not_zero unsigned_0 zero_neq_numeral)
  show ?thesis
    using nz by (simp add: with_capacity_def pow2_and_pred_64 unat_pow2_64 [OF k])
qed

lemma ring_rep_empty: "ring_rep k q xs \<Longrightarrow> empty q \<longleftrightarrow> xs = []"
  by (simp add: empty_def ring_empty_iff)

lemma ring_rep_full: "ring_rep k q xs \<Longrightarrow> full q \<longleftrightarrow> Suc (length xs) = 2 ^ k"
  by (simp add: full_def Let_def ring_full_iff)

lemma ring_rep_bound: "ring_rep k q xs \<Longrightarrow> length xs \<le> 2 ^ k - 1"
  unfolding ring_rep_def by linarith

lemma push_rep:
  assumes r: "ring_rep k q xs"
  shows "\<exists>ok q'. push v q = (ok, q') \<and> ring_rep k q' (if ok then xs @ [v] else xs)
           \<and> (ok \<longleftrightarrow> Suc (length xs) < 2 ^ k)"
proof (cases "Suc (length xs) < 2 ^ k")
  case True
  with push_ok [OF r, of v] show ?thesis by auto
next
  case False
  with r have "Suc (length xs) = 2 ^ k" by (simp add: ring_rep_def)
  with push_full [OF r, of v] r False show ?thesis by auto
qed

lemma pop_rep:
  assumes r: "ring_rep k q xs"
  shows "\<exists>q'. pop q = (if xs = [] then None else Some (hd xs), q') \<and> ring_rep k q' (tl xs)"
proof (cases xs)
  case Nil
  with pop_empty [of k q] r show ?thesis by auto
next
  case (Cons x ys)
  with pop_ok [of k q x ys] r show ?thesis by auto
qed

lemma run_rep:
  "ring_rep k q xs \<Longrightarrow> run ops q = (evs, q') \<Longrightarrow>
     \<exists>ys. ring_rep k q' ys \<and> xs @ pushed evs = popped evs @ ys"
proof (induction ops arbitrary: q xs evs q')
  case Nil
  then show ?case by auto
next
  case (Cons a ops)
  show ?case
  proof (cases a)
    case (Push v)
    from push_rep [OF Cons.prems(1), of v] obtain ok q1 where
      p: "push v q = (ok, q1)" and r1: "ring_rep k q1 (if ok then xs @ [v] else xs)"
      by blast
    obtain evs1 q2 where e: "run ops q1 = (evs1, q2)" by (cases "run ops q1")
    from Cons.prems(2) Push p e have evs: "evs = Pushed v ok # evs1" and q': "q' = q2"
      by simp_all
    from Cons.IH [OF r1 e] obtain ys where
      "ring_rep k q2 ys" and "(if ok then xs @ [v] else xs) @ pushed evs1 = popped evs1 @ ys"
      by blast
    then show ?thesis unfolding evs q' by (cases ok) auto
  next
    case Pop
    from pop_rep [OF Cons.prems(1)] obtain q1 where
      p: "pop q = (if xs = [] then None else Some (hd xs), q1)" and r1: "ring_rep k q1 (tl xs)"
      by blast
    obtain evs1 q2 where e: "run ops q1 = (evs1, q2)" by (cases "run ops q1")
    from Cons.prems(2) Pop p e
    have evs: "evs = Popped (if xs = [] then None else Some (hd xs)) # evs1" and q': "q' = q2"
      by simp_all
    from Cons.IH [OF r1 e] obtain ys where
      "ring_rep k q2 ys" and "tl xs @ pushed evs1 = popped evs1 @ ys"
      by blast
    then show ?thesis unfolding evs q' by (cases xs) auto
  qed
qed

lemma push_many:
  "ring_rep k q xs \<Longrightarrow> length xs + length vs < 2 ^ k \<Longrightarrow>
     \<exists>q'. run (map Push vs) q = (map (\<lambda>v. Pushed v True) vs, q') \<and> ring_rep k q' (xs @ vs)"
proof (induction vs arbitrary: q xs)
  case Nil
  then show ?case by simp
next
  case (Cons v vs)
  from Cons.prems have "Suc (length xs) < 2 ^ k" by simp
  from push_ok [OF Cons.prems(1) this, of v] obtain q1 where
    p: "push v q = (True, q1)" and r1: "ring_rep k q1 (xs @ [v])" by blast
  from Cons.prems(2) have "length (xs @ [v]) + length vs < 2 ^ k" by simp
  from Cons.IH [OF r1 this] obtain q' where
    "run (map Push vs) q1 = (map (\<lambda>v. Pushed v True) vs, q')" and "ring_rep k q' ((xs @ [v]) @ vs)"
    by blast
  with p show ?case by simp
qed

lemma drain_rep:
  "ring_rep k q xs \<Longrightarrow> length xs < fuel \<Longrightarrow>
     \<exists>q'. drain fuel q = Some (xs, q') \<and> ring_rep k q' []"
proof (induction fuel arbitrary: q xs)
  case 0
  then show ?case by simp
next
  case (Suc fuel)
  show ?case
  proof (cases xs)
    case Nil
    with Suc.prems pop_empty [of k q] show ?thesis by simp
  next
    case (Cons x ys)
    with Suc.prems pop_ok [of k q x ys] obtain q1 where
      p: "pop q = (Some x, q1)" and r1: "ring_rep k q1 ys" by blast
    from Suc.prems Cons have "length ys < fuel" by simp
    from Suc.IH [OF r1 this] obtain q' where "drain fuel q1 = Some (ys, q')" and "ring_rep k q' []"
      by blast
    with p Cons show ?thesis by simp
  qed
qed

lemma with_capacity_rep:
  assumes k: "k < 64" and w: "with_capacity ok st (2 ^ k) = Inr q0"
  shows "ring_rep k q0 []"
proof -
  from w obtain f where
    "q0 = \<lparr>m_head = 0, m_tail = 0, m_buf = map f [0..<unat ((2::64 word) ^ k)],
           m_capacity = 2 ^ k, m_mask = 2 ^ k - 1\<rparr>"
    by (auto simp: with_capacity_def split: if_splits option.splits)
  then show ?thesis
    using k by (simp add: ring_rep_def unat_pow2_64 [OF k])
qed

section \<open>Claims about the SPSC ring\<close>

text \<open>
  Claim C5. For every power-of-two capacity \<open>C = 2 ^ k\<close> that fits \<^verbatim>\<open>size_t\<close>, a queue made
  by the factory takes \<open>C - 1\<close> pushes in a row, each returning true; it then holds \<open>C - 1\<close>
  elements and reports full, and one more push returns false and hands back the queue as
  it was: the buffer and the tail index are the same.
\<close>

theorem spsc_capacity_bound:
  assumes "k < 64" and "with_capacity ok st (2 ^ k) = Inr q0"
    and "length vs = 2 ^ k - 1"
    and "run (map Push vs) q0 = (evs, q1)"
  shows "evs = map (\<lambda>x. Pushed x True) vs \<and> unat (approx_size q1) = 2 ^ k - 1 \<and> full q1
         \<and> push v q1 = (False, q1)
         \<and> m_buf (snd (push v q1)) = m_buf q1 \<and> m_tail (snd (push v q1)) = m_tail q1"
proof -
  have r0: "ring_rep k q0 []" using assms(1,2) by (rule with_capacity_rep)
  have "length [] + length vs < 2 ^ k" using assms(3) by simp
  from push_many [OF r0 this] assms(4) have e: "evs = map (\<lambda>x. Pushed x True) vs"
    and r1: "ring_rep k q1 vs" by auto
  have n: "Suc (length vs) = 2 ^ k" using assms(3) by simp
  from push_full [OF r1 n] ring_size [OF r1] ring_rep_full [OF r1] e n assms(3)
  show ?thesis by simp
qed

theorem spsc_capacity_bound_witness:
  "(3::nat) < 64 \<and> with_capacity True (Some (\<lambda>_. 0)) (2 ^ 3) = Inr ring8
   \<and> length [10, 11, 12, 13, 14, 15, 16 :: int] = 2 ^ 3 - 1
   \<and> fst (run (map Push [10, 11, 12, 13, 14, 15, 16]) ring8) = map (\<lambda>x. Pushed x True) [10, 11, 12, 13, 14, 15, 16]
   \<and> push 99 (snd (run (map Push [10, 11, 12, 13, 14, 15, 16]) ring8))
       = (False, snd (run (map Push [10, 11, 12, 13, 14, 15, 16]) ring8))"
proof -
  have a: "(3::nat) < 64" by simp
  have b: "with_capacity True (Some (\<lambda>_. 0)) (2 ^ 3) = Inr ring8" by code_simp
  have c: "length [10, 11, 12, 13, 14, 15, 16 :: int] = 2 ^ 3 - 1" by simp
  have d: "run (map Push [10, 11, 12, 13, 14, 15, 16]) ring8
           = (fst (run (map Push [10, 11, 12, 13, 14, 15, 16]) ring8),
              snd (run (map Push [10, 11, 12, 13, 14, 15, 16]) ring8))" by simp
  from spsc_capacity_bound [OF a b c d, of 99] a b c show ?thesis by simp
qed

text \<open>
  Claim C6. For every power-of-two capacity and every sequence of pushes and pops run on a
  fresh queue, the values popped so far followed by the values a final drain hands out are
  exactly the values whose push succeeded, in push order: nothing is lost, duplicated or
  reordered. The drain ends within \<open>C\<close> pops and leaves the queue empty. The instance below
  is the scenario of the unit test: capacity 8, push 0..6, pop three (0, 1, 2), push
  100..102, drain \<open>[3, 4, 5, 6, 100, 101, 102]\<close>.
\<close>

theorem spsc_fifo:
  assumes "k < 64" and "with_capacity ok st (2 ^ k) = Inr q0"
    and "run ops q0 = (evs, q)"
  shows "\<exists>rest q'. drain (2 ^ k) q = Some (rest, q') \<and> empty q'
           \<and> popped evs @ rest = pushed evs"
proof -
  have r0: "ring_rep k q0 []" using assms(1,2) by (rule with_capacity_rep)
  from run_rep [OF r0 assms(3)] obtain ys where
    r: "ring_rep k q ys" and e: "pushed evs = popped evs @ ys" by auto
  from r have "length ys < 2 ^ k" by (simp add: ring_rep_def)
  from drain_rep [OF r this] obtain q' where "drain (2 ^ k) q = Some (ys, q')" and "ring_rep k q' []"
    by blast
  with e ring_rep_empty [of k q' "[]"] show ?thesis by auto
qed

theorem spsc_fifo_witness:
  "(3::nat) < 64 \<and> with_capacity True (Some (\<lambda>_. 0)) (2 ^ 3) = Inr ring8
   \<and> pushed (fst (run ring_order_ops ring8)) = [0, 1, 2, 3, 4, 5, 6, 100, 101, 102]
   \<and> popped (fst (run ring_order_ops ring8)) = [0, 1, 2]
   \<and> map_option fst (drain (2 ^ 3) (snd (run ring_order_ops ring8))) = Some [3, 4, 5, 6, 100, 101, 102]"
proof -
  have a: "(3::nat) < 64" by simp
  have b: "with_capacity True (Some (\<lambda>_. 0)) (2 ^ 3) = Inr ring8" by code_simp
  have c: "run ring_order_ops ring8 = (fst (run ring_order_ops ring8), snd (run ring_order_ops ring8))"
    by simp
  have d: "pushed (fst (run ring_order_ops ring8)) = [0, 1, 2, 3, 4, 5, 6, 100, 101, 102]"
    by code_simp
  have e: "popped (fst (run ring_order_ops ring8)) = [0, 1, 2]"
    by code_simp
  from spsc_fifo [OF a b c] obtain rest q' where
    "drain (2 ^ 3) (snd (run ring_order_ops ring8)) = Some (rest, q')"
    and "popped (fst (run ring_order_ops ring8)) @ rest = pushed (fst (run ring_order_ops ring8))"
    by blast
  with d e have "map_option fst (drain (2 ^ 3) (snd (run ring_order_ops ring8))) = Some [3, 4, 5, 6, 100, 101, 102]"
    by simp
  with a b d e show ?thesis by simp
qed

text \<open>
  Claim C10. In the state reached from a fresh queue of capacity \<open>C = 2 ^ k\<close> by any sequence
  of operations with \<open>p\<close> successful pushes and \<open>q\<close> successful pops, \<open>q \<le> p\<close> and
  \<open>p - q \<le> C - 1\<close> hold, \<^verbatim>\<open>approx_size()\<close> is exactly \<open>p - q\<close>, and \<^verbatim>\<open>empty()\<close> is true
  exactly when \<open>p = q\<close>.
\<close>

theorem spsc_size_counts:
  assumes "k < 64" and "with_capacity ok st (2 ^ k) = Inr q0"
    and "run ops q0 = (evs, q)"
  shows "length (popped evs) \<le> length (pushed evs)
         \<and> length (pushed evs) - length (popped evs) \<le> 2 ^ k - 1
         \<and> unat (approx_size q) = length (pushed evs) - length (popped evs)
         \<and> (empty q \<longleftrightarrow> length (pushed evs) = length (popped evs))"
proof -
  have r0: "ring_rep k q0 []" using assms(1,2) by (rule with_capacity_rep)
  from run_rep [OF r0 assms(3)] obtain ys where
    r: "ring_rep k q ys" and e: "pushed evs = popped evs @ ys" by auto
  from e have l: "length (pushed evs) = length (popped evs) + length ys"
    by (metis length_append)
  from ring_size [OF r] ring_rep_empty [OF r] ring_rep_bound [OF r] l
  show ?thesis by auto
qed

theorem spsc_size_counts_witness:
  "(3::nat) < 64 \<and> with_capacity True (Some (\<lambda>_. 0)) (2 ^ 3) = Inr ring8
   \<and> length (pushed (fst (run ring_order_ops ring8))) = 10
   \<and> length (popped (fst (run ring_order_ops ring8))) = 3
   \<and> unat (approx_size (snd (run ring_order_ops ring8))) = 7
   \<and> \<not> empty (snd (run ring_order_ops ring8))"
proof -
  have a: "(3::nat) < 64" by simp
  have b: "with_capacity True (Some (\<lambda>_. 0)) (2 ^ 3) = Inr ring8" by code_simp
  have c: "run ring_order_ops ring8 = (fst (run ring_order_ops ring8), snd (run ring_order_ops ring8))"
    by simp
  have d: "length (pushed (fst (run ring_order_ops ring8))) = 10" by code_simp
  have e: "length (popped (fst (run ring_order_ops ring8))) = 3" by code_simp
  from spsc_size_counts [OF a b c] a b d e show ?thesis by simp
qed

section \<open>The metrics seqlock\<close>



lemma u32_and_one_odd: "(x::u32) AND 1 \<noteq> 0 \<longleftrightarrow> odd x"
  by (simp add: and_one_eq odd_iff_mod_2_eq_one)

lemma u32_mod_two_even: "(x::u32) mod 2 = 0 \<longleftrightarrow> even x"
  by (simp add: even_iff_mod_2_eq_zero)

lemma u32_even_or_one: "even (x::u32) \<Longrightarrow> (x OR 1) + 1 = x + 2"
  by (simp add: or_one_eq)

lemma update_metrics_seq: "seq (update_metrics s m) = (seq s OR 1) + 1"
  by (simp add: update_metrics_def update_metrics_steps_def Let_def)

lemma load_metrics_loop_log:
  "load_metrics_loop s t i = (r, t', lg) \<Longrightarrow>
     length lg \<le> 4 - i
     \<and> (\<forall>e\<in>set (butlast lg). rejected e)
     \<and> (case r of
           None \<Rightarrow> length lg = 4 - i \<and> (\<forall>e\<in>set lg. rejected e)
         | Some p \<Rightarrow> lg \<noteq> [] \<and> (\<exists>s2. last lg = (s2, Some (p, s2)) \<and> even s2))"
proof (induction s t i arbitrary: r t' lg rule: load_metrics_loop.induct)
  case (1 s t i)
  show ?case
  proof (cases "i < 4")
    case False
    with "1.prems" show ?thesis by (simp add: load_metrics_loop.simps [of s t i])
  next
    case True
    note lt = this
    show ?thesis
    proof (cases "seq (s t) AND 1 \<noteq> 0")
      case True
      obtain r1 t1 lg1 where rec: "load_metrics_loop s (t + 1) (i + 1) = (r1, t1, lg1)"
        by (cases "load_metrics_loop s (t + 1) (i + 1)")
      have "load_metrics_loop s t i = (r1, t1, (seq (s t), None) # lg1)"
        by (subst load_metrics_loop.simps)
           (simp only: lt True rec Let_def if_True if_False prod.case simp_thms)
      with "1.prems" have eq: "r = r1" "lg = (seq (s t), None) # lg1"
        by simp_all
      from "1.IH"(1) [OF lt refl True rec] have ih:
        "length lg1 \<le> 4 - (i + 1)" "\<forall>e\<in>set (butlast lg1). rejected e"
        "case r1 of None \<Rightarrow> length lg1 = 4 - (i + 1) \<and> (\<forall>e\<in>set lg1. rejected e)
           | Some p \<Rightarrow> lg1 \<noteq> [] \<and> (\<exists>s2. last lg1 = (s2, Some (p, s2)) \<and> even s2)"
        by simp_all
      have rj: "rejected (seq (s t), None)" using True by (simp add: u32_and_one_odd)
      show ?thesis using ih rj lt unfolding eq
        by (cases r1) (auto simp: butlast_def)
    next
      case False
      note ev = this
      show ?thesis
      proof (cases "seq (s t) = seq (s (t + 2)) \<and> seq (s (t + 2)) mod 2 = 0")
        case True
        from True have c: "(seq (s t) = seq (s (t + 2)) \<and> seq (s (t + 2)) mod 2 = 0) = True"
          by simp
        have "load_metrics_loop s t i
                = (Some (metrics (s (t + 1))), t + 3,
                   [(seq (s t), Some (metrics (s (t + 1)), seq (s (t + 2))))])"
          by (subst load_metrics_loop.simps)
             (simp only: lt ev c Let_def if_True if_False prod.case simp_thms)
        with "1.prems" True lt show ?thesis
          by (auto simp: u32_mod_two_even)
      next
        case False
        obtain r1 t1 lg1 where rec: "load_metrics_loop s (t + 3) (i + 1) = (r1, t1, lg1)"
          by (cases "load_metrics_loop s (t + 3) (i + 1)")
        have "load_metrics_loop s t i
                = (r1, t1, (seq (s t), Some (metrics (s (t + 1)), seq (s (t + 2)))) # lg1)"
          by (subst load_metrics_loop.simps)
             (simp only: lt ev False rec Let_def if_True if_False prod.case simp_thms)
        with "1.prems" have eq: "r = r1"
          "lg = (seq (s t), Some (metrics (s (t + 1)), seq (s (t + 2)))) # lg1"
          by simp_all
        from "1.IH"(2) [OF lt refl ev refl refl False rec] have ih:
          "length lg1 \<le> 4 - (i + 1)" "\<forall>e\<in>set (butlast lg1). rejected e"
          "case r1 of None \<Rightarrow> length lg1 = 4 - (i + 1) \<and> (\<forall>e\<in>set lg1. rejected e)
             | Some p \<Rightarrow> lg1 \<noteq> [] \<and> (\<exists>s2. last lg1 = (s2, Some (p, s2)) \<and> even s2)"
          by simp_all
        have rj: "rejected (seq (s t), Some (metrics (s (t + 1)), seq (s (t + 2))))"
          using False by (simp add: u32_mod_two_even)
        show ?thesis using ih rj lt unfolding eq
          by (cases r1) (auto simp: butlast_def)
      qed
    qed
  qed
qed


lemma ex_ge_weaken: "\<exists>\<tau>\<ge>(t::nat) + d. P \<tau> \<Longrightarrow> \<exists>\<tau>\<ge>t. P \<tau>"
  by (meson add_leD1)

lemma snapshot_binding_loop_cases:
  "snapshot_binding_loop b t i = (ok, fn, st, t', acc) \<Longrightarrow>
     (ok \<longleftrightarrow> acc \<and> fn \<noteq> None \<and> st \<noteq> None)
     \<and> (\<not> acc \<longrightarrow> fn = None \<and> st = None)
     \<and> (acc \<longrightarrow> (\<exists>\<tau>\<ge>t. even (b_seq (b \<tau>)) \<and> b_seq (b (\<tau> + 3)) = b_seq (b \<tau>)
                      \<and> fn = b_fn (b (\<tau> + 1)) \<and> st = b_state (b (\<tau> + 2)) \<and> t' = \<tau> + 4))"
proof (induction b t i arbitrary: ok fn st t' acc rule: snapshot_binding_loop.induct)
  case (1 b t i)
  show ?case
  proof (cases "i < 4")
    case False
    with "1.prems" show ?thesis by (simp add: snapshot_binding_loop.simps [of b t i])
  next
    case True
    note lt = this
    show ?thesis
    proof (cases "b_seq (b t) AND 1 \<noteq> 0")
      case True
      have "snapshot_binding_loop b t i = snapshot_binding_loop b (t + 1) (i + 1)"
        by (subst snapshot_binding_loop.simps)
           (simp only: lt True Let_def if_True if_False simp_thms)
      with "1.prems" have rec: "snapshot_binding_loop b (t + 1) (i + 1) = (ok, fn, st, t', acc)"
        by simp
      from "1.IH"(1) [OF lt refl True rec] show ?thesis
        using ex_ge_weaken [of t 1] by simp
    next
      case False
      note ev = this
      show ?thesis
      proof (cases "b_seq (b t) = b_seq (b (t + 3)) \<and> b_seq (b (t + 3)) mod 2 = 0")
        case True
        then have c: "(b_seq (b t) = b_seq (b (t + 3)) \<and> b_seq (b (t + 3)) mod 2 = 0) = True"
          by simp
        have "snapshot_binding_loop b t i
                = (b_fn (b (t + 1)) \<noteq> None \<and> b_state (b (t + 2)) \<noteq> None,
                   b_fn (b (t + 1)), b_state (b (t + 2)), t + 4, True)"
          by (subst snapshot_binding_loop.simps)
             (simp only: lt ev c Let_def if_True if_False simp_thms)
        with "1.prems" have "(ok, fn, st, t', acc)
            = (b_fn (b (t + 1)) \<noteq> None \<and> b_state (b (t + 2)) \<noteq> None,
               b_fn (b (t + 1)), b_state (b (t + 2)), t + 4, True)"
          by (simp only:)
        then have eq: "ok = (b_fn (b (t + 1)) \<noteq> None \<and> b_state (b (t + 2)) \<noteq> None)"
          "fn = b_fn (b (t + 1))" "st = b_state (b (t + 2))" "t' = t + 4" "acc = True"
          by (simp_all only: prod.inject)
        have "even (b_seq (b t)) \<and> b_seq (b (t + 3)) = b_seq (b t)"
          using True by (simp add: u32_mod_two_even)
        then show ?thesis unfolding eq by auto
      next
        case False
        have "snapshot_binding_loop b t i = snapshot_binding_loop b (t + 4) (i + 1)"
          by (subst snapshot_binding_loop.simps)
             (simp only: lt ev False Let_def if_True if_False simp_thms)
        with "1.prems" have rec: "snapshot_binding_loop b (t + 4) (i + 1) = (ok, fn, st, t', acc)"
          by simp
        from "1.IH"(2) [OF lt refl ev refl refl refl False rec] show ?thesis
          using ex_ge_weaken [of t 4] by simp
      qed
    qed
  qed
qed

lemma load_metrics_loop_reads:
  "load_metrics_loop s t i = (r, t', lg) \<Longrightarrow>
     lg = slot_reads s t (length lg) \<and> t' = access_after s t (length lg)
     \<and> (\<forall>p. r = Some p \<longrightarrow>
           (\<exists>\<tau>\<ge>t. even (seq (s \<tau>)) \<and> seq (s (\<tau> + 2)) = seq (s \<tau>)
                  \<and> p = metrics (s (\<tau> + 1)) \<and> t' = \<tau> + 3))"
proof (induction s t i arbitrary: r t' lg rule: load_metrics_loop.induct)
  case (1 s t i)
  show ?case
  proof (cases "i < 4")
    case False
    with "1.prems" show ?thesis by (simp add: load_metrics_loop.simps [of s t i])
  next
    case True
    note lt = this
    show ?thesis
    proof (cases "seq (s t) AND 1 \<noteq> 0")
      case True
      then have od: "odd (seq (s t))" by (simp add: u32_and_one_odd)
      obtain r1 t1 lg1 where rec: "load_metrics_loop s (t + 1) (i + 1) = (r1, t1, lg1)"
        by (cases "load_metrics_loop s (t + 1) (i + 1)")
      have "load_metrics_loop s t i = (r1, t1, (seq (s t), None) # lg1)"
        by (subst load_metrics_loop.simps)
           (simp only: lt True rec Let_def if_True if_False prod.case simp_thms)
      with "1.prems" have eq: "r = r1" "t' = t1" "lg = (seq (s t), None) # lg1"
        by simp_all
      from "1.IH"(1) [OF lt refl True rec] have ih:
        "lg1 = slot_reads s (t + 1) (length lg1)" "t1 = access_after s (t + 1) (length lg1)"
        "\<forall>p. r1 = Some p \<longrightarrow>
           (\<exists>\<tau>\<ge>t + 1. even (seq (s \<tau>)) \<and> seq (s (\<tau> + 2)) = seq (s \<tau>)
                  \<and> p = metrics (s (\<tau> + 1)) \<and> t1 = \<tau> + 3)"
        by blast+
      have a: "lg = slot_reads s t (length lg)"
        unfolding eq using ih(1) od by (simp add: slot_read_def next_access_def)
      have b: "t' = access_after s t (length lg)"
        unfolding eq using ih(2) od by (simp add: next_access_def)
      have c: "\<forall>p. r = Some p \<longrightarrow>
           (\<exists>\<tau>\<ge>t. even (seq (s \<tau>)) \<and> seq (s (\<tau> + 2)) = seq (s \<tau>)
                  \<and> p = metrics (s (\<tau> + 1)) \<and> t' = \<tau> + 3)"
      proof (intro allI impI)
        fix p assume "r = Some p"
        with ih(3) eq have "\<exists>\<tau>\<ge>t + 1. even (seq (s \<tau>)) \<and> seq (s (\<tau> + 2)) = seq (s \<tau>)
                      \<and> p = metrics (s (\<tau> + 1)) \<and> t' = \<tau> + 3" by simp
        then show "\<exists>\<tau>\<ge>t. even (seq (s \<tau>)) \<and> seq (s (\<tau> + 2)) = seq (s \<tau>)
                      \<and> p = metrics (s (\<tau> + 1)) \<and> t' = \<tau> + 3" by (rule ex_ge_weaken)
      qed
      from a b c show ?thesis by blast
    next
      case False
      note ev = this
      then have evn: "even (seq (s t))" using u32_and_one_odd [of "seq (s t)"] by blast
      show ?thesis
      proof (cases "seq (s t) = seq (s (t + 2)) \<and> seq (s (t + 2)) mod 2 = 0")
        case True
        then have c: "(seq (s t) = seq (s (t + 2)) \<and> seq (s (t + 2)) mod 2 = 0) = True"
          by simp
        have "load_metrics_loop s t i
                = (Some (metrics (s (t + 1))), t + 3,
                   [(seq (s t), Some (metrics (s (t + 1)), seq (s (t + 2))))])"
          by (subst load_metrics_loop.simps)
             (simp only: lt ev c Let_def if_True if_False prod.case simp_thms)
        with "1.prems" have eq: "r = Some (metrics (s (t + 1)))" "t' = t + 3"
          "lg = [(seq (s t), Some (metrics (s (t + 1)), seq (s (t + 2))))]"
          by simp_all
        have a: "lg = slot_reads s t (length lg)"
          unfolding eq using evn by (simp add: slot_read_def)
        have b: "t' = access_after s t (length lg)"
          unfolding eq using evn by (simp add: next_access_def)
        have "even (seq (s t)) \<and> seq (s (t + 2)) = seq (s t)"
          using True evn by simp
        then have "\<forall>p. r = Some p \<longrightarrow>
           (\<exists>\<tau>\<ge>t. even (seq (s \<tau>)) \<and> seq (s (\<tau> + 2)) = seq (s \<tau>)
                  \<and> p = metrics (s (\<tau> + 1)) \<and> t' = \<tau> + 3)"
          unfolding eq by auto
        with a b show ?thesis by blast
      next
        case False
        obtain r1 t1 lg1 where rec: "load_metrics_loop s (t + 3) (i + 1) = (r1, t1, lg1)"
          by (cases "load_metrics_loop s (t + 3) (i + 1)")
        have "load_metrics_loop s t i
                = (r1, t1, (seq (s t), Some (metrics (s (t + 1)), seq (s (t + 2)))) # lg1)"
          by (subst load_metrics_loop.simps)
             (simp only: lt ev False rec Let_def if_True if_False prod.case simp_thms)
        with "1.prems" have eq: "r = r1" "t' = t1"
          "lg = (seq (s t), Some (metrics (s (t + 1)), seq (s (t + 2)))) # lg1"
          by simp_all
        from "1.IH"(2) [OF lt refl ev refl refl False rec] have ih:
          "lg1 = slot_reads s (t + 3) (length lg1)" "t1 = access_after s (t + 3) (length lg1)"
          "\<forall>p. r1 = Some p \<longrightarrow>
             (\<exists>\<tau>\<ge>t + 3. even (seq (s \<tau>)) \<and> seq (s (\<tau> + 2)) = seq (s \<tau>)
                    \<and> p = metrics (s (\<tau> + 1)) \<and> t1 = \<tau> + 3)"
          by blast+
        have a: "lg = slot_reads s t (length lg)"
          unfolding eq using ih(1) evn by (simp add: slot_read_def next_access_def)
        have b: "t' = access_after s t (length lg)"
          unfolding eq using ih(2) evn by (simp add: next_access_def)
        have c: "\<forall>p. r = Some p \<longrightarrow>
           (\<exists>\<tau>\<ge>t. even (seq (s \<tau>)) \<and> seq (s (\<tau> + 2)) = seq (s \<tau>)
                  \<and> p = metrics (s (\<tau> + 1)) \<and> t' = \<tau> + 3)"
        proof (intro allI impI)
          fix p assume "r = Some p"
          with ih(3) eq have "\<exists>\<tau>\<ge>t + 3. even (seq (s \<tau>)) \<and> seq (s (\<tau> + 2)) = seq (s \<tau>)
                        \<and> p = metrics (s (\<tau> + 1)) \<and> t' = \<tau> + 3" by simp
          then show "\<exists>\<tau>\<ge>t. even (seq (s \<tau>)) \<and> seq (s (\<tau> + 2)) = seq (s \<tau>)
                        \<and> p = metrics (s (\<tau> + 1)) \<and> t' = \<tau> + 3" by (rule ex_ge_weaken)
        qed
        from a b c show ?thesis by blast
      qed
    qed
  qed
qed

text \<open>
  Claim C7. When \<^verbatim>\<open>seq\<close> is even at the start of \<^verbatim>\<open>update_metrics\<close>, the call leaves
  \<^verbatim>\<open>seq\<close> two higher (in 32-bit arithmetic) and even, with the new payload stored, and the
  slot is odd after each of the first two stores. \<^verbatim>\<open>load_metrics\<close>, started at access \<open>t\<close>
  of a slot \<open>v\<close> that writers may change at any time, runs at most four iterations, and
  its log is exactly what these iterations read from the slot, one after the other from
  \<open>t\<close> on. Every iteration before the last was rejected. When it returns true, the last
  iteration read the same even value of \<^verbatim>\<open>seq\<close> from the slot before and after copying
  the payload: there is an access \<open>\<tau> \<ge> t\<close> with \<open>seq (v \<tau>)\<close> even and equal to
  \<open>seq (v (\<tau> + 2))\<close>, and the payload handed out is \<open>metrics (v (\<tau> + 1))\<close>. It returns
  false exactly when four iterations ran and each was rejected.
\<close>

theorem seqlock_metrics_protocol:
  "(even (seq s) \<longrightarrow>
      seq (update_metrics s m) = seq s + 2 \<and> even (seq (update_metrics s m))
      \<and> metrics (update_metrics s m) = m
      \<and> map (\<lambda>x. odd (seq x)) (update_metrics_steps s m) = [True, True, False])
   \<and> (load_metrics_loop v t 0 = (r, t', lg) \<longrightarrow>
        length lg \<le> 4
      \<and> lg = slot_reads v t (length lg)
      \<and> t' = access_after v t (length lg)
      \<and> (\<forall>e\<in>set (butlast lg). rejected e)
      \<and> (\<forall>p. r = Some p \<longrightarrow> lg \<noteq> [] \<and> (\<exists>s1 s2. last lg = (s1, Some (p, s2)) \<and> s1 = s2 \<and> even s2))
      \<and> (\<forall>p. r = Some p \<longrightarrow>
            (\<exists>\<tau>\<ge>t. even (seq (v \<tau>)) \<and> seq (v (\<tau> + 2)) = seq (v \<tau>)
                   \<and> p = metrics (v (\<tau> + 1)) \<and> t' = \<tau> + 3))
      \<and> (r = None \<longleftrightarrow> length lg = 4 \<and> (\<forall>e\<in>set lg. rejected e)))"
proof (intro conjI impI)
  assume e: "even (seq s)"
  then have o: "seq s OR 1 = seq s + 1" by (simp add: or_one_eq)
  show "seq (update_metrics s m) = seq s + 2"
    using e by (simp add: update_metrics_seq u32_even_or_one)
  show "even (seq (update_metrics s m))"
    using e by (simp add: update_metrics_seq u32_even_or_one)
  show "metrics (update_metrics s m) = m"
    by (simp add: update_metrics_def update_metrics_steps_def Let_def)
  show "map (\<lambda>x. odd (seq x)) (update_metrics_steps s m) = [True, True, False]"
    using e by (simp add: update_metrics_steps_def Let_def o)
next
  assume l: "load_metrics_loop v t 0 = (r, t', lg)"
  note log = load_metrics_loop_log [OF l]
  note reads = load_metrics_loop_reads [OF l]
  from log show "length lg \<le> 4" by simp
  from reads show "lg = slot_reads v t (length lg)" by blast
  from reads show "t' = access_after v t (length lg)" by blast
  from log show "\<forall>e\<in>set (butlast lg). rejected e" by blast
  show "\<forall>p. r = Some p \<longrightarrow> lg \<noteq> [] \<and> (\<exists>s1 s2. last lg = (s1, Some (p, s2)) \<and> s1 = s2 \<and> even s2)"
    using log by auto
  from reads show "\<forall>p. r = Some p \<longrightarrow>
            (\<exists>\<tau>\<ge>t. even (seq (v \<tau>)) \<and> seq (v (\<tau> + 2)) = seq (v \<tau>)
                   \<and> p = metrics (v (\<tau> + 1)) \<and> t' = \<tau> + 3)" by blast
  show "r = None \<longleftrightarrow> length lg = 4 \<and> (\<forall>e\<in>set lg. rejected e)"
  proof
    assume "r = None" with log show "length lg = 4 \<and> (\<forall>e\<in>set lg. rejected e)" by simp
  next
    assume a: "length lg = 4 \<and> (\<forall>e\<in>set lg. rejected e)"
    show "r = None"
    proof (cases r)
      case None then show ?thesis .
    next
      case (Some p)
      with log obtain s2 where ne: "lg \<noteq> []" and la: "last lg = (s2, Some (p, s2))" and ev: "even s2"
        by auto
      from ne have "last lg \<in> set lg" by simp
      with a have "rejected (last lg)" by blast
      with la ev show ?thesis by simp
    qed
  qed
qed

theorem seqlock_metrics_protocol_witness:
  "even (seq MetricsSlot_init)
   \<and> seq (update_metrics MetricsSlot_init healthy_metrics) = 2
   \<and> load_metrics_loop (\<lambda>\<tau>. parked_slot) 0 0 = (None, 4, [(1, None), (1, None), (1, None), (1, None)])
   \<and> slot_reads (\<lambda>\<tau>. parked_slot) 0 4 = [(1, None), (1, None), (1, None), (1, None)]
   \<and> rejected (1, None)
   \<and> load_metrics_loop racing_view 0 0
       = (Some healthy_metrics, 5, [(1, None), (1, None), (2, Some (healthy_metrics, 2))])
   \<and> slot_reads racing_view 0 3 = [(1, None), (1, None), (2, Some (healthy_metrics, 2))]
   \<and> access_after racing_view 0 3 = 5
   \<and> seq (racing_view 2) = 2 \<and> metrics (racing_view 3) = healthy_metrics \<and> seq (racing_view 4) = 2"
proof -
  let ?P = "[(1::u32, None :: (PathMetrics \<times> u32) option), (1, None), (1, None), (1, None)]"
  let ?R = "[(1::u32, None), (1, None), (2, Some (healthy_metrics, 2))]"
  have a: "even (seq MetricsSlot_init)" by (simp add: MetricsSlot_init_def)
  have b: "load_metrics_loop (\<lambda>\<tau>. parked_slot) 0 0 = (None, 4, ?P)"
    by code_simp
  have c: "load_metrics_loop racing_view 0 0 = (Some healthy_metrics, 5, ?R)"
    by code_simp
  have d1: "seq (racing_view 2) = 2" by code_simp
  have d2: "metrics (racing_view 3) = healthy_metrics" by code_simp
  have d3: "seq (racing_view 4) = 2" by code_simp
  have lp: "length ?P = 4" by simp
  have lr: "length ?R = 3" by simp
  have rj: "rejected (1, None)" by simp
  note parked = seqlock_metrics_protocol [of MetricsSlot_init healthy_metrics
      "\<lambda>\<tau>. parked_slot" 0 None 4 ?P]
  note racing = seqlock_metrics_protocol [of MetricsSlot_init healthy_metrics
      racing_view 0 "Some healthy_metrics" 5 ?R]
  note w = parked [THEN conjunct1, THEN mp, OF a, THEN conjunct1]
  have z: "seq MetricsSlot_init + 2 = 2" by (simp add: MetricsSlot_init_def)
  have w': "seq (update_metrics MetricsSlot_init healthy_metrics) = 2"
    using w by (simp only: z)
  note pr = parked [THEN conjunct2, THEN mp, OF b]
  note rr = racing [THEN conjunct2, THEN mp, OF c]
  have p1: "slot_reads (\<lambda>\<tau>. parked_slot) 0 4 = ?P"
    using pr [THEN conjunct2, THEN conjunct1] by (simp only: lp)
  have r1: "slot_reads racing_view 0 3 = ?R"
    using rr [THEN conjunct2, THEN conjunct1] by (simp only: lr)
  have r2: "access_after racing_view 0 3 = 5"
    using rr [THEN conjunct2, THEN conjunct2, THEN conjunct1] by (simp only: lr)
  show ?thesis
    by (intro conjI) (rule a w' b p1 rj c r1 r2 d1 d2 d3)+
qed

section \<open>The policies\<close>



lemma unat_u32_of_nat_le: "unat (word_of_nat n :: u32) \<le> n"
  by (simp add: unat_of_nat)

lemma u32_mod_index: "i < n \<Longrightarrow> unat n \<le> length xs \<Longrightarrow> unat ((a :: u32) mod n) < length xs"
proof -
  assume "i < n" and le: "unat n \<le> length xs"
  then have "0 < unat n" by (simp add: word_less_nat_alt)
  then have "unat a mod unat n < unat n" by (rule mod_less_divisor)
  then have "unat (a mod n) < unat n" by (simp only: unat_mod_distrib)
  with le show ?thesis by linarith
qed

lemma scan_healthy_member:
  "scan_healthy mem cands n start t i = Some p \<Longrightarrow> unat n \<le> length cands \<Longrightarrow>
     p \<in> cand_id ` set cands"
proof (induction mem cands n start t i rule: scan_healthy.induct)
  case (1 mem cands n start t i)
  from "1.prems"(1) have lt: "i < n"
    by (subst (asm) scan_healthy.simps) (simp split: if_splits)
  let ?k = "(start + i) mod n"
  have k: "unat ?k < length cands" using lt "1.prems"(2) by (rule u32_mod_index)
  obtain r t1 where ld: "load_metrics (slot_view mem (cands ! unat ?k)) t = (r, t1)"
    by (cases "load_metrics (slot_view mem (cands ! unat ?k)) t")
  show ?case
  proof (cases r)
    case None
    have "scan_healthy mem cands n start t i = scan_healthy mem cands n start t1 (i + 1)"
      by (subst scan_healthy.simps) (simp add: lt ld None)
    with "1.prems"(1) have "scan_healthy mem cands n start t1 (i + 1) = Some p" by simp
    from "1.IH"(1) [OF lt refl refl ld [symmetric] None this "1.prems"(2)] show ?thesis .
  next
    case (Some m)
    show ?thesis
    proof (cases "healthy m")
      case True
      have "scan_healthy mem cands n start t i = Some (cand_id (cands ! unat ?k))"
        by (subst scan_healthy.simps) (simp add: lt ld Some True)
      with "1.prems"(1) k show ?thesis by auto
    next
      case False
      have "scan_healthy mem cands n start t i = scan_healthy mem cands n start t1 (i + 1)"
        by (subst scan_healthy.simps) (simp add: lt ld Some False)
      with "1.prems"(1) have "scan_healthy mem cands n start t1 (i + 1) = Some p" by simp
      from "1.IH"(2) [OF lt refl refl ld [symmetric] Some False this "1.prems"(2)] show ?thesis .
    qed
  qed
qed



lemma la_healthy_pass_done:
  "\<not> i < length cands \<Longrightarrow> la_healthy_pass mem cfg pkt cands t i acc = (acc, t)"
  by (cases acc) (simp add: la_healthy_pass.simps)

lemma la_healthy_pass_step:
  assumes "i < length cands"
  shows "\<exists>acc1 t1. la_healthy_pass mem cfg pkt cands t i acc
                    = la_healthy_pass mem cfg pkt cands t1 (i + 1) acc1
           \<and> (acc1 = acc \<or> fst acc1 = i)
           \<and> (fst (load_metrics (slot_view mem (cands ! i)) t) = None \<longrightarrow> acc1 = acc)"
proof -
  obtain best hb bm where acc: "acc = (best, hb, bm)" by (cases acc)
  obtain r t1 where ld: "load_metrics (slot_view mem (cands ! i)) t = (r, t1)"
    by (cases "load_metrics (slot_view mem (cands ! i)) t")
  show ?thesis
    unfolding acc
    by (subst la_healthy_pass.simps) (auto simp: assms ld Let_def split: option.splits)
qed

lemma la_healthy_pass_best:
  "fst acc < length cands \<Longrightarrow>
     fst (fst (la_healthy_pass mem cfg pkt cands t i acc)) < length cands"
proof (induction "length cands - i" arbitrary: i t acc)
  case 0
  then have "\<not> i < length cands" by simp
  with "0.prems" show ?case by (simp add: la_healthy_pass_done)
next
  case (Suc d)
  then have lt: "i < length cands" by simp
  from la_healthy_pass_step [OF lt, of mem cfg pkt t acc] obtain acc1 t1 where
    e: "la_healthy_pass mem cfg pkt cands t i acc = la_healthy_pass mem cfg pkt cands t1 (i + 1) acc1"
    and a: "acc1 = acc \<or> fst acc1 = i" by blast
  from a lt Suc.prems have b: "fst acc1 < length cands" by auto
  from Suc.hyps(2) have "d = length cands - (i + 1)" by simp
  from Suc.hyps(1) [OF this b] show ?case unfolding e .
qed

lemma la_healthy_pass_unreadable:
  "\<forall>c\<in>set cands. \<forall>\<tau>. fst (load_metrics (slot_view mem c) \<tau>) = None \<Longrightarrow>
     fst (la_healthy_pass mem cfg pkt cands t i acc) = acc"
proof (induction "length cands - i" arbitrary: i t acc)
  case 0
  then have "\<not> i < length cands" by simp
  then show ?case by (simp add: la_healthy_pass_done)
next
  case (Suc d)
  then have lt: "i < length cands" by simp
  then have "fst (load_metrics (slot_view mem (cands ! i)) t) = None"
    using Suc.prems by simp
  with la_healthy_pass_step [OF lt, of mem cfg pkt t acc] obtain t1 where
    e: "la_healthy_pass mem cfg pkt cands t i acc = la_healthy_pass mem cfg pkt cands t1 (i + 1) acc"
    by auto
  from Suc.hyps(2) have "d = length cands - (i + 1)" by simp
  from Suc.hyps(1) [OF this Suc.prems] show ?case unfolding e .
qed

lemma la_fallback_pass_done:
  "\<not> i < length cands \<Longrightarrow> la_fallback_pass mem cands t i acc = (acc, t)"
  by (cases acc) (simp add: la_fallback_pass.simps)

lemma la_fallback_pass_step:
  assumes "i < length cands"
  shows "\<exists>acc1 t1. la_fallback_pass mem cands t i acc = la_fallback_pass mem cands t1 (i + 1) acc1
           \<and> (acc1 = acc \<or> fst acc1 = i)
           \<and> (fst (load_metrics (slot_view mem (cands ! i)) t) = None \<longrightarrow> acc1 = acc)"
proof -
  obtain idx init minm where acc: "acc = (idx, init, minm)" by (cases acc)
  obtain r t1 where ld: "load_metrics (slot_view mem (cands ! i)) t = (r, t1)"
    by (cases "load_metrics (slot_view mem (cands ! i)) t")
  show ?thesis
    unfolding acc
    by (subst la_fallback_pass.simps) (auto simp: assms ld Let_def split: option.splits)
qed

lemma la_fallback_pass_idx:
  "fst acc < length cands \<Longrightarrow>
     fst (fst (la_fallback_pass mem cands t i acc)) < length cands"
proof (induction "length cands - i" arbitrary: i t acc)
  case 0
  then have "\<not> i < length cands" by simp
  with "0.prems" show ?case by (simp add: la_fallback_pass_done)
next
  case (Suc d)
  then have lt: "i < length cands" by simp
  from la_fallback_pass_step [OF lt, of mem t acc] obtain acc1 t1 where
    e: "la_fallback_pass mem cands t i acc = la_fallback_pass mem cands t1 (i + 1) acc1"
    and a: "acc1 = acc \<or> fst acc1 = i" by blast
  from a lt Suc.prems have b: "fst acc1 < length cands" by auto
  from Suc.hyps(2) have "d = length cands - (i + 1)" by simp
  from Suc.hyps(1) [OF this b] show ?case unfolding e .
qed

lemma la_fallback_pass_unreadable:
  "\<forall>c\<in>set cands. \<forall>\<tau>. fst (load_metrics (slot_view mem c) \<tau>) = None \<Longrightarrow>
     fst (la_fallback_pass mem cands t i acc) = acc"
proof (induction "length cands - i" arbitrary: i t acc)
  case 0
  then have "\<not> i < length cands" by simp
  then show ?case by (simp add: la_fallback_pass_done)
next
  case (Suc d)
  then have lt: "i < length cands" by simp
  then have "fst (load_metrics (slot_view mem (cands ! i)) t) = None"
    using Suc.prems by simp
  with la_fallback_pass_step [OF lt, of mem t acc] obtain t1 where
    e: "la_fallback_pass mem cands t i acc = la_fallback_pass mem cands t1 (i + 1) acc"
    by auto
  from Suc.hyps(2) have "d = length cands - (i + 1)" by simp
  from Suc.hyps(1) [OF this Suc.prems] show ?case unfolding e .
qed

lemma la_explore_member:
  "la_explore mem cands n start best t i = Some p \<Longrightarrow> unat n \<le> length cands \<Longrightarrow>
     p \<in> cand_id ` set cands"
proof (induction mem cands n start best t i rule: la_explore.induct)
  case (1 mem cands n start best t i)
  from "1.prems"(1) have lt: "i < n"
    by (subst (asm) la_explore.simps) (simp split: if_splits)
  let ?k = "(start + i) mod n"
  have k: "unat ?k < length cands" using lt "1.prems"(2) by (rule u32_mod_index)
  show ?case
  proof (cases "unat ?k \<noteq> best")
    case False
    have "la_explore mem cands n start best t i = la_explore mem cands n start best t (i + 1)"
      by (subst la_explore.simps) (use False in \<open>simp add: lt\<close>)
    with "1.prems"(1) have "la_explore mem cands n start best t (i + 1) = Some p" by simp
    from "1.IH"(3) [OF lt refl False this "1.prems"(2)] show ?thesis .
  next
    case True
    note ne = this
    obtain r t1 where ld: "load_metrics (slot_view mem (cands ! unat ?k)) t = (r, t1)"
      by (cases "load_metrics (slot_view mem (cands ! unat ?k)) t")
    show ?thesis
    proof (cases r)
      case None
      have "la_explore mem cands n start best t i = la_explore mem cands n start best t1 (i + 1)"
        by (subst la_explore.simps) (use ne in \<open>simp add: lt ld None\<close>)
      with "1.prems"(1) have "la_explore mem cands n start best t1 (i + 1) = Some p" by simp
      from "1.IH"(1) [OF lt refl ne refl ld [symmetric] None this "1.prems"(2)] show ?thesis .
    next
      case (Some m)
      show ?thesis
      proof (cases "healthy m")
        case True
        have "la_explore mem cands n start best t i = Some (cand_id (cands ! unat ?k))"
          by (subst la_explore.simps) (use ne in \<open>simp add: lt ld Some True\<close>)
        with "1.prems"(1) k show ?thesis by auto
      next
        case False
        have "la_explore mem cands n start best t i = la_explore mem cands n start best t1 (i + 1)"
          by (subst la_explore.simps) (use ne in \<open>simp add: lt ld Some False\<close>)
        with "1.prems"(1) have "la_explore mem cands n start best t1 (i + 1) = Some p" by simp
        from "1.IH"(2) [OF lt refl ne refl ld [symmetric] Some False this "1.prems"(2)] show ?thesis .
      qed
    qed
  qed
qed



lemma load_metrics_loop_all_odd:
  "\<forall>\<tau>. seq (s \<tau>) AND 1 \<noteq> 0 \<Longrightarrow> fst (load_metrics_loop s t i) = None"
proof (induction s t i rule: load_metrics_loop.induct)
  case (1 s t i)
  show ?case
  proof (cases "i < 4")
    case True
    have o: "seq (s t) AND 1 \<noteq> 0" using "1.prems" by blast
    obtain r1 t1 lg1 where rec: "load_metrics_loop s (t + 1) (i + 1) = (r1, t1, lg1)"
      by (cases "load_metrics_loop s (t + 1) (i + 1)")
    from "1.IH"(1) [OF True refl o "1.prems"] rec have "r1 = None" by simp
    moreover have "load_metrics_loop s t i = (r1, t1, (seq (s t), None) # lg1)"
      by (subst load_metrics_loop.simps)
         (simp only: True o rec Let_def if_True if_False prod.case simp_thms)
    ultimately show ?thesis by simp
  next
    case False
    then show ?thesis by (subst load_metrics_loop.simps) simp
  qed
qed

lemma load_metrics_all_odd: "\<forall>\<tau>. odd (seq (s \<tau>)) \<Longrightarrow> fst (load_metrics s t) = None"
proof -
  assume "\<forall>\<tau>. odd (seq (s \<tau>))"
  then have "\<forall>\<tau>. seq (s \<tau>) AND 1 \<noteq> 0" by (simp add: u32_and_one_odd)
  then have "fst (load_metrics_loop s t 0) = None" by (rule load_metrics_loop_all_odd)
  then show ?thesis by (auto simp: load_metrics_def split: prod.splits)
qed

lemma load_metrics_parked: "fst (load_metrics (slot_view parked_mem c) \<tau>) = None"
  by (rule load_metrics_all_odd) (simp add: slot_view_def parked_mem_def parked_slot_def)

text \<open>
  Claim C3, as amended. For the empty candidate list each of the three policies returns 0.
  For a non-empty list of fewer than \<open>2 ^ 32\<close> candidates, \<^verbatim>\<open>RoundRobinPolicy::choose\<close> and
  \<^verbatim>\<open>FlowHashPolicy::choose\<close> return the id of a member of the list. For every non-empty
  list \<^verbatim>\<open>LatencyAwarePolicy::choose\<close> returns the id of a member, and the id of the first
  candidate when no load of any candidate's metrics succeeds. This holds whatever the
  memory holds and whatever the writers do meanwhile.
\<close>

theorem policies_choose_candidate:
  "RoundRobinPolicy_choose mem t idx [] pkt = (0, idx)
   \<and> FlowHashPolicy_choose mem t skip [] pkt = 0
   \<and> LatencyAwarePolicy_choose mem t cfg salt [] pkt = (0, salt)
   \<and> (cands \<noteq> [] \<and> length cands < 2 ^ 32 \<longrightarrow>
        fst (RoundRobinPolicy_choose mem t idx cands pkt) \<in> cand_id ` set cands
      \<and> FlowHashPolicy_choose mem t skip cands pkt \<in> cand_id ` set cands)
   \<and> (cands \<noteq> [] \<longrightarrow>
        fst (LatencyAwarePolicy_choose mem t cfg salt cands pkt) \<in> cand_id ` set cands
      \<and> ((\<forall>c\<in>set cands. \<forall>\<tau>. fst (load_metrics (slot_view mem c) \<tau>) = None) \<longrightarrow>
            fst (LatencyAwarePolicy_choose mem t cfg salt cands pkt) = cand_id (cands ! 0)))"
proof (intro conjI impI)
  show "RoundRobinPolicy_choose mem t idx [] pkt = (0, idx)"
    by (simp add: RoundRobinPolicy_choose_def)
  show "FlowHashPolicy_choose mem t skip [] pkt = 0"
    by (simp add: FlowHashPolicy_choose_def)
  show "LatencyAwarePolicy_choose mem t cfg salt [] pkt = (0, salt)"
    by (simp add: LatencyAwarePolicy_choose_def)
next
  assume a: "cands \<noteq> [] \<and> length cands < 2 ^ 32"
  let ?n = "word_of_nat (length cands) :: u32"
  have un: "unat ?n = length cands"
    using a by (simp add: unat_of_nat)
  then have nz: "?n \<noteq> 0" using a by (metis length_0_conv unsigned_0)
  have le: "unat ?n \<le> length cands" by (rule unat_u32_of_nat_le)
  have pos: "0 < ?n" using nz by (simp add: word_neq_0_conv)
  have ix: "cand_id (cands ! unat (x mod ?n)) \<in> cand_id ` set cands" for x
    using u32_mod_index [OF pos le, of x] by simp
  show "fst (RoundRobinPolicy_choose mem t idx cands pkt) \<in> cand_id ` set cands"
    using nz ix scan_healthy_member [OF _ le]
    by (auto simp: RoundRobinPolicy_choose_def Let_def split: option.splits)
  show "FlowHashPolicy_choose mem t skip cands pkt \<in> cand_id ` set cands"
    using nz ix scan_healthy_member [OF _ le]
    by (auto simp: FlowHashPolicy_choose_def Let_def split: option.splits)
next
  assume ne: "cands \<noteq> []"
  let ?n = "word_of_nat (length cands) :: u32"
  have le: "unat ?n \<le> length cands" by (rule unat_u32_of_nat_le)
  obtain best hb bm t1 where
    hp: "la_healthy_pass mem cfg pkt cands t 0 (0, False, PathMetrics_init) = ((best, hb, bm), t1)"
    by (metis prod_cases3 surj_pair)
  obtain idx init minm t2 where
    fp: "la_fallback_pass mem cands t1 0 (0, False, PathMetrics_init) = ((idx, init, minm), t2)"
    by (metis prod_cases3 surj_pair)
  have b: "best < length cands"
    using la_healthy_pass_best [of "(0, False, PathMetrics_init)" cands mem cfg pkt t 0] ne hp
    by simp
  have i: "idx < length cands"
    using la_fallback_pass_idx [of "(0, False, PathMetrics_init)" cands mem t1 0] ne fp
    by simp
  have z: "0 < length cands" using ne by simp
  show "fst (LatencyAwarePolicy_choose mem t cfg salt cands pkt) \<in> cand_id ` set cands"
    using ne hp fp b i z la_explore_member [OF _ le]
    by (auto simp: LatencyAwarePolicy_choose_def Let_def split: option.splits prod.splits)
next
  assume ne: "cands \<noteq> []"
    and un: "\<forall>c\<in>set cands. \<forall>\<tau>. fst (load_metrics (slot_view mem c) \<tau>) = None"
  have hp: "fst (la_healthy_pass mem cfg pkt cands t 0 (0, False, PathMetrics_init))
              = (0, False, PathMetrics_init)"
    using un by (rule la_healthy_pass_unreadable)
  have fp: "fst (la_fallback_pass mem cands t1 0 (0, False, PathMetrics_init))
              = (0, False, PathMetrics_init)" for t1
    using un by (rule la_fallback_pass_unreadable)
  obtain t1 where hp': "la_healthy_pass mem cfg pkt cands t 0 (0, False, PathMetrics_init)
              = ((0, False, PathMetrics_init), t1)"
    using hp by (metis prod.collapse)
  obtain t2 where fp': "la_fallback_pass mem cands t1 0 (0, False, PathMetrics_init)
              = ((0, False, PathMetrics_init), t2)"
    using fp [of t1] by (metis prod.collapse)
  show "fst (LatencyAwarePolicy_choose mem t cfg salt cands pkt) = cand_id (cands ! 0)"
    using ne hp' fp' by (simp add: LatencyAwarePolicy_choose_def)
qed

theorem policies_choose_candidate_witness:
  "[cand7, cand9] \<noteq> [] \<and> length [cand7, cand9] < 2 ^ 32
   \<and> fst (load_metrics (slot_view parked_mem cand7) 0) = None
   \<and> fst (load_metrics (slot_view parked_mem cand9) 0) = None
   \<and> fst (RoundRobinPolicy_choose parked_mem 0 1 [cand7, cand9] pkt0) \<in> {7, 9}
   \<and> FlowHashPolicy_choose parked_mem 0 True [cand7, cand9] pkt0 \<in> {7, 9}
   \<and> fst (LatencyAwarePolicy_choose parked_mem 0 LatencyAwareConfig_init 0 [cand7, cand9] pkt0) = 7"
proof -
  have a: "[cand7, cand9] \<noteq> [] \<and> length [cand7, cand9] < 2 ^ 32" by simp
  have b: "\<forall>c\<in>set [cand7, cand9]. \<forall>\<tau>. fst (load_metrics (slot_view parked_mem c) \<tau>) = None"
    by (simp add: load_metrics_parked)
  from policies_choose_candidate [of parked_mem 0 1 pkt0 True LatencyAwareConfig_init 0
      "[cand7, cand9]"] a b
  show ?thesis by (simp add: cand7_def cand9_def load_metrics_parked)
qed

theorem round_robin_wide_list_counterexample:
  "replicate (2 ^ 32) cand1 \<noteq> []
   \<and> fst (RoundRobinPolicy_choose quiet_mem 0 0 (replicate (2 ^ 32) cand1) pkt0)
       \<notin> cand_id ` set (replicate (2 ^ 32) cand1)"
  by (simp add: RoundRobinPolicy_choose_def cand1_def)


section \<open>The policy binding\<close>

text \<open>
  Claim C4, as amended. Let the seqlock read of \<^verbatim>\<open>snapshot_binding\<close> end with the pair
  \<open>(fn, st)\<close>, accepted or not. When no iteration accepted (the retries are used up) or
  \<open>fn\<close> or \<open>st\<close> is null, \<^verbatim>\<open>select_path\<close> returns 0 and calls nothing. Otherwise it
  returns what \<open>fn\<close> returns on \<open>st\<close>, the candidates and the packet, which may itself be
  0; and the accepted pair was read between two loads of the same even \<^verbatim>\<open>seq\<close>.
\<close>

theorem select_path_cases:
  assumes "snapshot_binding_loop b t 0 = (ok, fn, st, t', accepted)"
  shows "(\<not> accepted \<or> fn = None \<or> st = None \<longrightarrow> select_path b t cands pkt h = (0, h))
       \<and> (\<forall>f p. accepted \<and> fn = Some f \<and> st = Some p \<longrightarrow>
             select_path b t cands pkt h = f p cands pkt h)
       \<and> (accepted \<longrightarrow>
            (\<exists>\<tau>\<ge>t. even (b_seq (b \<tau>)) \<and> b_seq (b (\<tau> + 3)) = b_seq (b \<tau>)
                   \<and> fn = b_fn (b (\<tau> + 1)) \<and> st = b_state (b (\<tau> + 2))))"
proof -
  note c = snapshot_binding_loop_cases [OF assms]
  have sp: "select_path b t cands pkt h = (if \<not> ok then (0, h) else (the fn) (the st) cands pkt h)"
    by (simp add: select_path_def snapshot_binding_def assms)
  from c have okiff: "ok \<longleftrightarrow> accepted \<and> fn \<noteq> None \<and> st \<noteq> None" by blast
  have 1: "\<not> accepted \<or> fn = None \<or> st = None \<longrightarrow> select_path b t cands pkt h = (0, h)"
    using okiff sp by auto
  have 2: "\<forall>f p. accepted \<and> fn = Some f \<and> st = Some p \<longrightarrow>
             select_path b t cands pkt h = f p cands pkt h"
    using okiff sp by auto
  have 3: "accepted \<longrightarrow>
            (\<exists>\<tau>\<ge>t. even (b_seq (b \<tau>)) \<and> b_seq (b (\<tau> + 3)) = b_seq (b \<tau>)
                   \<and> fn = b_fn (b (\<tau> + 1)) \<and> st = b_state (b (\<tau> + 2)))"
    using c by blast
  from 1 2 3 show ?thesis by blast
qed

lemma bound_rr_snapshot:
  "snapshot_binding_loop bound_rr 0 0
     = (True, Some (choose_thunk_RoundRobin quiet_mem 0), Some 7, 4, True)"
  by (subst snapshot_binding_loop.simps)
     (simp add: bound_rr_def publish_policy_def publish_policy_steps_def PolicyBinding_init_def
        Let_def)

theorem select_path_cases_witness:
  "snapshot_binding_loop bound_rr 0 0
     = (True, Some (choose_thunk_RoundRobin quiet_mem 0), Some 7, 4, True)
   \<and> select_path bound_rr 0 [cand7, cand9] pkt0 rr_store
       = choose_thunk_RoundRobin quiet_mem 0 7 [cand7, cand9] pkt0 rr_store
   \<and> fst (select_path bound_rr 0 [cand7, cand9] pkt0 rr_store) = 7"
proof -
  have v: "fst (choose_thunk_RoundRobin quiet_mem 0 7 [cand7, cand9] pkt0 rr_store) = 7"
    by (simp add: choose_thunk_RoundRobin_def RoundRobinPolicy_choose_def rr_store_def
          cand7_def cand9_def Let_def split: option.splits prod.splits)
       (simp add: scan_healthy.simps [of _ _ _ _ _ 0] scan_healthy.simps [of _ _ _ _ _ 1]
          scan_healthy.simps [of _ _ _ _ _ 2] load_metrics_def
          load_metrics_loop.simps [of _ _ 0] slot_view_def quiet_mem_def MetricsSlot_init_def
          PathMetrics_init_def Let_def)
  from select_path_cases [OF bound_rr_snapshot, of "[cand7, cand9]" pkt0 rr_store] bound_rr_snapshot v
  show ?thesis by simp
qed

theorem select_path_zero_counterexample:
  "fst (snapshot_binding bound_rr 0)
   \<and> fst (select_path bound_rr 0 [] pkt0 rr_store) = 0"
  by (simp add: select_path_def snapshot_binding_def bound_rr_snapshot
        choose_thunk_RoundRobin_def RoundRobinPolicy_choose_def)

section \<open>The service registry\<close>

lemma id_alphabet_ok: "c \<in> id_alphabet \<Longrightarrow> id_char_ok c"
  unfolding id_alphabet_def id_char_ok_def by (simp, elim disjE) simp_all

lemma validateId_class:
  "2 \<le> length s \<Longrightarrow> length s \<le> n \<Longrightarrow> set s \<subseteq> id_alphabet \<Longrightarrow> validateId s n"
  by (auto simp: validateId_def list_all_iff id_alphabet_ok)

lemma validateId_short: "length s < 2 \<Longrightarrow> \<not> validateId s n"
  by (simp add: validateId_def)

lemma validatePops_single:
  "validateId (pop_id p) MaxIdLen \<Longrightarrow> validateId (region p) MaxRegionLen \<Longrightarrow>
     validateIp pton (ip p) \<Longrightarrow> validatePops pton [p]"
  by (simp add: validatePops_def MaxPopsPerService_def)

lemma validatePops_bad_region:
  "\<not> validateId (region p) MaxRegionLen \<Longrightarrow> \<not> validatePops pton (p # ps)"
  by (simp add: validatePops_def)

lemma mutate_not_ok:
  assumes "mutate pton mode sid pops r = (e, r')" and "e \<noteq> Ok"
  shows "m_map r' = m_map r \<and> m_version r' = m_version r \<and> m_failures r' = m_failures r + 1
         \<and> m_adds r' = m_adds r \<and> m_replaces r' = m_replaces r \<and> m_upserts r' = m_upserts r"
  using assms
  by (auto simp: mutate_def fail_def snapshot_def Let_def split: if_splits option.splits Mode.splits)

lemma addService_inserts:
  assumes "validateId sid MaxIdLen" and "validatePops pton pops"
    and "m_map r = Some m" and "length m \<le> MaxServices" and "map_of m sid = None"
  shows "addService pton sid pops r
           = (Ok, r\<lparr>m_map := Some (m @ [(sid, pops)]), m_version := m_version r + 1,
                    m_adds := m_adds r + 1\<rparr>)"
  using assms by (simp add: addService_def mutate_def snapshot_def umap_emplace_def Let_def)

lemma upsertService_present:
  assumes "validateId sid MaxIdLen" and "validatePops pton pops"
    and "m_map r = Some m" and "length m \<le> MaxServices" and "map_of m sid = Some old"
  shows "upsertService pton sid pops r
           = (Ok, r\<lparr>m_map := Some m, m_version := m_version r + 1,
                    m_upserts := m_upserts r + 1\<rparr>)"
  using assms by (simp add: upsertService_def mutate_def snapshot_def umap_emplace_def Let_def)

lemma mutate_over_capacity:
  assumes "validateId sid MaxIdLen" and "validatePops pton pops"
    and "m_map r = Some m" and "length m > MaxServices"
  shows "mutate pton mode sid pops r = fail Capacity r"
  using assms by (simp add: mutate_def snapshot_def)

lemma svc_name_count_a: "length (filter (\<lambda>c. c = CHR ''a'') (svc_name i)) = 1 + i div 16"
  by (simp add: svc_name_def)

lemma svc_name_count_b: "length (filter (\<lambda>c. c = CHR ''b'') (svc_name i)) = 1 + i mod 16"
  by (simp add: svc_name_def)

lemma svc_name_inj: "svc_name i = svc_name j \<Longrightarrow> i = j"
proof -
  assume e: "svc_name i = svc_name j"
  from e svc_name_count_a [of i] svc_name_count_a [of j] have "i div 16 = j div 16" by simp
  moreover from e svc_name_count_b [of i] svc_name_count_b [of j] have "i mod 16 = j mod 16" by simp
  ultimately show ?thesis by (metis div_mult_mod_eq)
qed

lemma svc_name_valid: "i < 256 \<Longrightarrow> validateId (svc_name i) MaxIdLen"
proof -
  assume "i < 256"
  then have "i div 16 < 16" by simp
  moreover have "i mod 16 < 16" by simp
  ultimately have "length (svc_name i) \<le> 32" by (simp add: svc_name_def)
  moreover have "2 \<le> length (svc_name i)" by (simp add: svc_name_def)
  moreover have "set (svc_name i) \<subseteq> id_alphabet" by (auto simp: svc_name_def id_alphabet_def)
  ultimately show ?thesis by (simp add: validateId_class MaxIdLen_def)
qed

lemma pop_nyc_valid: "validatePops sample_pton [pop_nyc]"
  by code_simp

lemma svc_entries_fresh: "map_of (svc_entries n) (svc_name n) = None"
  by (auto simp: svc_entries_def map_of_eq_None_iff dest: svc_name_inj)

lemma registry_after_adds_eq:
  "n \<le> 129 \<Longrightarrow>
     registry_after_adds n
       = \<lparr>m_map = Some (svc_entries n), m_version = word_of_nat n, m_adds = word_of_nat n,
          m_replaces = 0, m_upserts = 0, m_removes = 0, m_failures = 0\<rparr>"
proof (induction n)
  case 0
  show ?case by (simp add: registry_after_adds_def svc_entries_def ServiceRegistry_init_def)
next
  case (Suc n)
  then have ih: "registry_after_adds n
       = \<lparr>m_map = Some (svc_entries n), m_version = word_of_nat n, m_adds = word_of_nat n,
          m_replaces = 0, m_upserts = 0, m_removes = 0, m_failures = 0\<rparr>" by simp
  have step: "registry_after_adds (Suc n)
       = snd (addService sample_pton (svc_name n) [pop_nyc] (registry_after_adds n))"
    by (simp add: registry_after_adds_def)
  have v: "validateId (svc_name n) MaxIdLen" using Suc.prems by (intro svc_name_valid) simp
  have l: "length (svc_entries n) \<le> MaxServices"
    using Suc.prems by (simp add: svc_entries_def MaxServices_def)
  have m: "m_map (registry_after_adds n) = Some (svc_entries n)" by (simp add: ih)
  show ?case
    unfolding step addService_inserts [OF v pop_nyc_valid m l svc_entries_fresh]
    by (simp add: ih svc_entries_def)
qed


text \<open>
  Claim C1, evaluated. A registry filled by 128 successful \<^verbatim>\<open>addService\<close> calls holds
  \<^verbatim>\<open>MaxServices\<close> services. The next \<^verbatim>\<open>addService\<close> with a valid id that is not present
  returns \<^verbatim>\<open>Ok\<close>, not \<^verbatim>\<open>Capacity\<close>, and the published snapshot then holds 129 services,
  the new one among them.
\<close>

theorem addService_at_MaxServices:
  "registry_size (registry_after_adds 128) = MaxServices
   \<and> validateId (svc_name 128) MaxIdLen \<and> validatePops sample_pton [pop_nyc]
   \<and> \<not> hasService (registry_after_adds 128) (svc_name 128)
   \<and> fst (addService sample_pton (svc_name 128) [pop_nyc] (registry_after_adds 128)) = Ok
   \<and> registry_size (snd (addService sample_pton (svc_name 128) [pop_nyc] (registry_after_adds 128)))
       = 129
   \<and> getPopsCopy (snd (addService sample_pton (svc_name 128) [pop_nyc] (registry_after_adds 128)))
        (svc_name 128) = [pop_nyc]"
proof -
  have r: "registry_after_adds 128
       = \<lparr>m_map = Some (svc_entries 128), m_version = word_of_nat 128, m_adds = word_of_nat 128,
          m_replaces = 0, m_upserts = 0, m_removes = 0, m_failures = 0\<rparr>"
    by (rule registry_after_adds_eq) simp
  have v: "validateId (svc_name 128) MaxIdLen" by (rule svc_name_valid) simp
  have m: "m_map (registry_after_adds 128) = Some (svc_entries 128)" by (simp add: r)
  have l: "length (svc_entries 128) \<le> MaxServices" by (simp add: svc_entries_def MaxServices_def)
  note a = addService_inserts [OF v pop_nyc_valid m l svc_entries_fresh]
  have s: "registry_size (registry_after_adds 128) = MaxServices"
    by (simp add: registry_size_def snapshot_def m svc_entries_def MaxServices_def)
  have h: "\<not> hasService (registry_after_adds 128) (svc_name 128)"
    by (simp add: hasService_def snapshot_def m svc_entries_fresh)
  have s': "registry_size (snd (addService sample_pton (svc_name 128) [pop_nyc] (registry_after_adds 128)))
       = 129"
    by (simp add: a registry_size_def snapshot_def svc_entries_def)
  have g: "getPopsCopy (snd (addService sample_pton (svc_name 128) [pop_nyc] (registry_after_adds 128)))
        (svc_name 128) = [pop_nyc]"
    by (simp add: a getPopsCopy_def snapshot_def svc_entries_fresh map_add_def)
  from s v pop_nyc_valid h a s' g show ?thesis by simp
qed

text \<open>
  Claim C2, evaluated. On a fresh registry \<^verbatim>\<open>upsertService("svc", listA)\<close> returns \<^verbatim>\<open>Ok\<close>
  and publishes \<open>listA\<close>. A second call \<^verbatim>\<open>upsertService("svc", listB)\<close> with a different
  valid list returns \<^verbatim>\<open>Ok\<close> as well, and the published snapshot still maps the id to
  \<open>listA\<close>.
\<close>

theorem upsertService_keeps_old_pops:
  "validateId ''svc'' MaxIdLen \<and> validatePops sample_pton listA \<and> validatePops sample_pton listB
   \<and> listA \<noteq> listB
   \<and> fst (upsertService sample_pton ''svc'' listA ServiceRegistry_init) = Ok
   \<and> getPopsCopy (snd (upsertService sample_pton ''svc'' listA ServiceRegistry_init)) ''svc'' = listA
   \<and> fst (upsertService sample_pton ''svc'' listB
            (snd (upsertService sample_pton ''svc'' listA ServiceRegistry_init))) = Ok
   \<and> getPopsCopy (snd (upsertService sample_pton ''svc'' listB
            (snd (upsertService sample_pton ''svc'' listA ServiceRegistry_init)))) ''svc'' = listA"
  by code_simp

text \<open>
  Claim C8. Whenever \<^verbatim>\<open>addService\<close>, \<^verbatim>\<open>replaceService\<close> or \<^verbatim>\<open>upsertService\<close> returns a value
  other than \<^verbatim>\<open>Ok\<close>, the published snapshot and the version counter are what they were
  before the call, and the failures counter is one higher (in 64-bit arithmetic); this
  holds in particular when the value is \<^verbatim>\<open>Invalid\<close>.
\<close>

theorem registry_error_atomic:
  "(fst (addService pton sid pops r) \<noteq> Ok \<longrightarrow>
      snapshot (snd (addService pton sid pops r)) = snapshot r
      \<and> version (snd (addService pton sid pops r)) = version r
      \<and> m_failures (snd (addService pton sid pops r)) = m_failures r + 1)
   \<and> (fst (replaceService pton sid pops r) \<noteq> Ok \<longrightarrow>
      snapshot (snd (replaceService pton sid pops r)) = snapshot r
      \<and> version (snd (replaceService pton sid pops r)) = version r
      \<and> m_failures (snd (replaceService pton sid pops r)) = m_failures r + 1)
   \<and> (fst (upsertService pton sid pops r) \<noteq> Ok \<longrightarrow>
      snapshot (snd (upsertService pton sid pops r)) = snapshot r
      \<and> version (snd (upsertService pton sid pops r)) = version r
      \<and> m_failures (snd (upsertService pton sid pops r)) = m_failures r + 1)"
proof -
  have "fst (mutate pton mode sid pops r) \<noteq> Ok \<longrightarrow>
          snapshot (snd (mutate pton mode sid pops r)) = snapshot r
          \<and> version (snd (mutate pton mode sid pops r)) = version r
          \<and> m_failures (snd (mutate pton mode sid pops r)) = m_failures r + 1" for mode
    using mutate_not_ok [of pton mode sid pops r "fst (mutate pton mode sid pops r)"
        "snd (mutate pton mode sid pops r)"]
    by (simp add: snapshot_def version_def)
  then show ?thesis
    unfolding addService_def replaceService_def upsertService_def by blast
qed

theorem registry_error_atomic_witness:
  "fst (addService sample_pton ''svc_bad_ip'' [pop_bad_ip] ServiceRegistry_init) = Invalid
   \<and> fst (replaceService sample_pton ''svc1'' [pop_nyc] ServiceRegistry_init) = NotFound
   \<and> fst (upsertService sample_pton ''x'' [pop_nyc] ServiceRegistry_init) = Invalid
   \<and> snapshot (snd (addService sample_pton ''svc_bad_ip'' [pop_bad_ip] ServiceRegistry_init)) = Some []
   \<and> version (snd (addService sample_pton ''svc_bad_ip'' [pop_bad_ip] ServiceRegistry_init)) = 0
   \<and> m_failures (snd (addService sample_pton ''svc_bad_ip'' [pop_bad_ip] ServiceRegistry_init)) = 1"
proof -
  have a: "fst (addService sample_pton ''svc_bad_ip'' [pop_bad_ip] ServiceRegistry_init) = Invalid"
    by code_simp
  have b: "fst (replaceService sample_pton ''svc1'' [pop_nyc] ServiceRegistry_init) = NotFound"
    by code_simp
  have c: "fst (upsertService sample_pton ''x'' [pop_nyc] ServiceRegistry_init) = Invalid"
    by code_simp
  from registry_error_atomic [of sample_pton "''svc_bad_ip''" "[pop_bad_ip]" ServiceRegistry_init]
    a b c
  show ?thesis by (simp add: snapshot_def version_def ServiceRegistry_init_def)
qed

theorem region_length_one_counterexample:
  "validateId (pop_id pop_pp) MaxIdLen \<and> validateIp sample_pton (ip pop_pp)
   \<and> length (region pop_pp) = 1 \<and> set (region pop_pp) \<subseteq> id_alphabet
   \<and> \<not> validatePops sample_pton [pop_pp]
   \<and> fst (addService sample_pton ''svcX'' [pop_pp] ServiceRegistry_init) = Invalid"
proof -
  have "set (region pop_pp) \<subseteq> id_alphabet" by (simp add: pop_pp_def id_alphabet_def)
  moreover have "validateId (pop_id pop_pp) MaxIdLen \<and> validateIp sample_pton (ip pop_pp)
   \<and> length (region pop_pp) = 1 \<and> \<not> validatePops sample_pton [pop_pp]
   \<and> fst (addService sample_pton ''svcX'' [pop_pp] ServiceRegistry_init) = Invalid"
    by code_simp
  ultimately show ?thesis by simp
qed

text \<open>
  Claim C9, as amended. Let a pop have a valid id and an address that parses, and let the
  registry hold fewer than \<^verbatim>\<open>MaxServices\<close> services, none under the valid id \<open>sid\<close>. With
  any region of length 2 to 32 drawn from \<^verbatim>\<open>[A-Za-z0-9_-]\<close> the pop passes validation and
  \<^verbatim>\<open>addService\<close> returns \<^verbatim>\<open>Ok\<close> and publishes it. With a region of length 1 (or 0) the
  pop fails validation and \<^verbatim>\<open>addService\<close> returns \<^verbatim>\<open>Invalid\<close>.
\<close>

theorem region_validation:
  assumes "validateId (pop_id p) MaxIdLen" and "validateIp pton (ip p)"
    and "validateId sid MaxIdLen"
    and "m_map r = Some m" and "length m < MaxServices" and "map_of m sid = None"
  shows "(2 \<le> length rg \<and> length rg \<le> 32 \<and> set rg \<subseteq> id_alphabet \<longrightarrow>
            validateId rg MaxRegionLen \<and> validatePops pton [p\<lparr>region := rg\<rparr>]
            \<and> fst (addService pton sid [p\<lparr>region := rg\<rparr>] r) = Ok
            \<and> getPopsCopy (snd (addService pton sid [p\<lparr>region := rg\<rparr>] r)) sid = [p\<lparr>region := rg\<rparr>])
         \<and> (length rg < 2 \<longrightarrow>
            \<not> validatePops pton [p\<lparr>region := rg\<rparr>]
            \<and> fst (addService pton sid [p\<lparr>region := rg\<rparr>] r) = Invalid)"
proof (intro conjI impI)
  assume a: "2 \<le> length rg \<and> length rg \<le> 32 \<and> set rg \<subseteq> id_alphabet"
  then show v: "validateId rg MaxRegionLen"
    by (simp add: validateId_class MaxRegionLen_def)
  then show vp: "validatePops pton [p\<lparr>region := rg\<rparr>]"
    using assms(1,2) by (intro validatePops_single) simp_all
  have l: "length m \<le> MaxServices" using assms(5) by simp
  note ins = addService_inserts [OF assms(3) vp assms(4) l assms(6)]
  show "fst (addService pton sid [p\<lparr>region := rg\<rparr>] r) = Ok" by (simp add: ins)
  show "getPopsCopy (snd (addService pton sid [p\<lparr>region := rg\<rparr>] r)) sid = [p\<lparr>region := rg\<rparr>]"
    by (simp add: ins getPopsCopy_def snapshot_def assms(6) map_add_def)
next
  assume "length rg < 2"
  then have "\<not> validateId (region (p\<lparr>region := rg\<rparr>)) MaxRegionLen"
    by (simp add: validateId_short)
  then show n: "\<not> validatePops pton [p\<lparr>region := rg\<rparr>]" by (rule validatePops_bad_region)
  then show "fst (addService pton sid [p\<lparr>region := rg\<rparr>] r) = Invalid"
    by (simp add: addService_def mutate_def fail_def)
qed

theorem region_validation_witness:
  "validateId (pop_id pop_pp) MaxIdLen \<and> validateIp sample_pton (ip pop_pp)
   \<and> validateId ''svcX'' MaxIdLen \<and> m_map ServiceRegistry_init = Some []
   \<and> length ([] :: Map) < MaxServices \<and> map_of ([] :: Map) ''svcX'' = None
   \<and> 2 \<le> length ''r1'' \<and> length ''r1'' \<le> 32 \<and> set ''r1'' \<subseteq> id_alphabet
   \<and> validatePops sample_pton [pop_pp\<lparr>region := ''r1''\<rparr>]
   \<and> fst (addService sample_pton ''svcX'' [pop_pp\<lparr>region := ''r1''\<rparr>] ServiceRegistry_init) = Ok"
proof -
  have a: "validateId (pop_id pop_pp) MaxIdLen" by code_simp
  have b: "validateIp sample_pton (ip pop_pp)" by code_simp
  have c: "validateId ''svcX'' MaxIdLen" by code_simp
  have d: "m_map ServiceRegistry_init = Some []" by (simp add: ServiceRegistry_init_def)
  have e: "length ([] :: Map) < MaxServices" by (simp add: MaxServices_def)
  have f: "map_of ([] :: Map) ''svcX'' = None" by simp
  have g: "2 \<le> length ''r1'' \<and> length ''r1'' \<le> 32 \<and> set ''r1'' \<subseteq> id_alphabet"
    by (simp add: id_alphabet_def)
  from region_validation [OF a b c d e f, of "''r1''"] a b c d e f g show ?thesis by simp
qed

end
